theory Spec2Isabelle
  imports Main "HOL-Library.Sublist"
begin

section \<open>The build pipeline of \<^verbatim>\<open>src/tools/build/index.ts\<close>\<close>

text \<open>
  The build script composes a reactive pipeline: asset copy passes, the style and script
  transform stages, a manifest that maps asset paths to the paths that were written, and a
  template pass that rewrites references through the manifest, minifies and adds a banner.

  JavaScript strings are modelled as \<^typ>\<open>string\<close> (lists of 8-bit characters): every
  operation the script applies to them works position by position, so the alphabet only
  bounds which characters can occur. The collaborators the script imports (the SVG
  optimiser, the HTML minifier, the style and script compilers, the output root
  \<^verbatim>\<open>base\<close>) are parameters of the definitions that call them, and so is the
  regular-expression engine for the expressions whose matching is not spelled out here.
\<close>

subsection \<open>Strings: \<^verbatim>\<open>startsWith\<close>, \<^verbatim>\<open>indexOf\<close> and \<^verbatim>\<open>replace\<close>\<close>

definition startsWith :: "string \<Rightarrow> string \<Rightarrow> bool" where
  "startsWith s p = prefix p s"

text \<open>\<^verbatim>\<open>s.indexOf(pat)\<close>: the first position where \<open>pat\<close> occurs, \<open>None\<close> for \<open>-1\<close>.
  The empty pattern occurs at position 0.\<close>

fun indexOf :: "string \<Rightarrow> string \<Rightarrow> nat option" where
  "indexOf [] pat = (if pat = [] then Some 0 else None)"
| "indexOf (c # cs) pat =
     (if prefix pat (c # cs) then Some 0 else map_option Suc (indexOf cs pat))"

definition is_digit :: "char \<Rightarrow> bool" where
  "is_digit c = (c \<in> set ''0123456789'')"

definition digit_value :: "char \<Rightarrow> nat" where
  "digit_value c = of_char c - 48"

text \<open>
  The replacement text of \<^verbatim>\<open>String.prototype.replace\<close> is a template (ECMAScript,
  GetSubstitution): \<^verbatim>\<open>$$\<close> is a dollar sign, \<^verbatim>\<open>$&\<close> the matched text, a dollar
  followed by a backquote the text before the match, a dollar followed by a single quote
  the text after it, and \<^verbatim>\<open>$n\<close>, \<^verbatim>\<open>$nn\<close> the capture of that number when the
  pattern has one (a two-digit number beyond the captures is read as one digit). Every
  other character stands for itself. There are no named captures in this program.
\<close>

fun get_substitution :: "string \<Rightarrow> string \<Rightarrow> nat \<Rightarrow> string list \<Rightarrow> string \<Rightarrow> string" where
  "get_substitution matched str position captures [] = []"
| "get_substitution matched str position captures [c] = [c]"
| "get_substitution matched str position captures (c # d # rest) =
     (if c \<noteq> CHR ''$'' then c # get_substitution matched str position captures (d # rest)
      else if d = CHR ''$'' then CHR ''$'' # get_substitution matched str position captures rest
      else if d = CHR 0x60 then take position str @ get_substitution matched str position captures rest
      else if d = CHR ''&'' then matched @ get_substitution matched str position captures rest
      else if d = CHR 0x27 then
        drop (position + length matched) str @ get_substitution matched str position captures rest
      else if is_digit d then
        (case rest of
           e # rest' \<Rightarrow>
             if is_digit e \<and> 10 * digit_value d + digit_value e \<le> length captures then
               (if 1 \<le> 10 * digit_value d + digit_value e
                then captures ! (10 * digit_value d + digit_value e - 1) else [c, d, e])
               @ get_substitution matched str position captures rest'
             else
               (if 1 \<le> digit_value d \<and> digit_value d \<le> length captures
                then captures ! (digit_value d - 1) else [c, d])
               @ get_substitution matched str position captures rest
         | [] \<Rightarrow>
             (if 1 \<le> digit_value d \<and> digit_value d \<le> length captures
              then captures ! (digit_value d - 1) else [c, d]))
      else c # get_substitution matched str position captures (d # rest))"

text \<open>\<^verbatim>\<open>s.replace(pat, repl)\<close> with a string pattern: only the first occurrence of
  \<open>pat\<close> is replaced, by the expansion of \<open>repl\<close>; without an occurrence \<open>s\<close> is
  returned as it is.\<close>

definition replace :: "string \<Rightarrow> string \<Rightarrow> string \<Rightarrow> string" where
  "replace s pat repl =
     (case indexOf s pat of
        None \<Rightarrow> s
      | Some p \<Rightarrow> take p s @ get_substitution pat s p [] repl @ drop (p + length pat) s)"

subsection \<open>\<^verbatim>\<open>path.extname\<close> and the helper \<^verbatim>\<open>ext\<close>\<close>

text \<open>
  \<^verbatim>\<open>path.extname\<close> (Node.js, POSIX flavour) scans the path from its last character to its
  first. It skips trailing slashes, stops at the slash before the last component and
  remembers the right-most dot of that component. The result is empty when the component
  has no dot, starts with its only dot, or is \<^verbatim>\<open>..\<close>; otherwise it runs from the
  right-most dot to the end of the component. The loop state keeps Node's variable names
  and its \<open>-1\<close> sentinels.
\<close>

record extname_state =
  startDot :: int
  startPart :: int
  end_pos :: int
  matchedSlash :: bool
  preDotState :: int

fun extname_loop :: "string \<Rightarrow> nat \<Rightarrow> extname_state \<Rightarrow> extname_state" where
  "extname_loop path 0 st = st"
| "extname_loop path (Suc i) st =
     (if path ! i = CHR ''/'' then
        (if \<not> matchedSlash st then st\<lparr>startPart := int i + 1\<rparr>
         else extname_loop path i st)
      else
        (let st1 = (if end_pos st = - 1 then st\<lparr>matchedSlash := False, end_pos := int i + 1\<rparr>
                    else st);
             st2 = (if path ! i = CHR ''.'' then
                      (if startDot st1 = - 1 then st1\<lparr>startDot := int i\<rparr>
                       else if preDotState st1 \<noteq> 1 then st1\<lparr>preDotState := 1\<rparr>
                       else st1)
                    else if startDot st1 \<noteq> - 1 then st1\<lparr>preDotState := - 1\<rparr>
                    else st1)
         in extname_loop path i st2))"

definition extname_init :: extname_state where
  "extname_init =
     \<lparr>startDot = - 1, startPart = 0, end_pos = - 1, matchedSlash = True, preDotState = 0\<rparr>"

definition extname :: "string \<Rightarrow> string" where
  "extname path =
     (let st = extname_loop path (length path) extname_init
      in if startDot st = - 1 \<or> end_pos st = - 1 \<or> preDotState st = 0 \<or>
            (preDotState st = 1 \<and> startDot st = end_pos st - 1 \<and>
             startDot st = startPart st + 1)
         then []
         else take (nat (end_pos st) - nat (startDot st)) (drop (nat (startDot st)) path))"

text \<open>\<^verbatim>\<open>function ext(file, extension) { return file.replace(path.extname(file), extension) }\<close>\<close>

definition ext :: "string \<Rightarrow> string \<Rightarrow> string" where
  "ext file extension = replace file (extname file) extension"

subsection \<open>\<^verbatim>\<open>minsvg\<close>\<close>

text \<open>The SVG optimiser (\<^verbatim>\<open>optimize(data, {plugins: ...}).data\<close>) is the parameter
  \<open>optimize\<close>.\<close>

definition minsvg :: "(string \<Rightarrow> string) \<Rightarrow> string \<Rightarrow> string" where
  "minsvg optimize data = (if \<not> startsWith data ''<'' then data else optimize data)"

subsection \<open>The manifest: a JavaScript \<^verbatim>\<open>Map\<close> and the reducer of \<^verbatim>\<open>scan\<close>\<close>

text \<open>
  A \<^verbatim>\<open>Map\<close> keeps its keys in insertion order; \<^verbatim>\<open>set\<close> on a key that is present
  replaces the value where the key already stands, and adds a new key at the end.
\<close>

type_synonym manifest = "(string \<times> string) list"

fun map_set :: "manifest \<Rightarrow> string \<Rightarrow> string \<Rightarrow> manifest" where
  "map_set [] k v = [(k, v)]"
| "map_set ((k', v') # m) k v =
     (if k' = k then (k, v) # m else (k', v') # map_set m k v)"

abbreviation backslash :: char where
  "backslash \<equiv> CHR 0x5C"

abbreviation dquote :: char where
  "dquote \<equiv> CHR 0x22"

abbreviation squote :: char where
  "squote \<equiv> CHR 0x27"

abbreviation LF :: char where
  "LF \<equiv> CHR 0x0A"

abbreviation CR :: char where
  "CR \<equiv> CHR 0x0D"

text \<open>
  The reducer passed to \<^verbatim>\<open>scan\<close>: every pair of the batch \<open>mapping\<close> is set in the
  accumulator \<open>prev\<close>, the key after \<^verbatim>\<open>key.replace("\\", "/")\<close> and the value after
  \<^verbatim>\<open>value.replace("\\", "/").replace(`${base}/`, "")\<close>. All three are calls of
  \<open>replace\<close> with a string pattern.
\<close>

definition manifest_key :: "string \<Rightarrow> string" where
  "manifest_key key = replace key [backslash] ''/''"

definition manifest_value :: "string \<Rightarrow> string \<Rightarrow> string" where
  "manifest_value base v = replace (replace v [backslash] ''/'') (base @ ''/'') []"

definition manifest_reducer :: "string \<Rightarrow> manifest \<Rightarrow> (string \<times> string) list \<Rightarrow> manifest" where
  "manifest_reducer base prev mapping =
     foldl (\<lambda>next (key, v). map_set next (manifest_key key) (manifest_value base v)) prev mapping"

subsection \<open>The transform stages \<^verbatim>\<open>stylesheets$\<close> and \<^verbatim>\<open>javascripts$\<close>\<close>

text \<open>
  \<^verbatim>\<open>zip(of(key), transform$)\<close> pairs the one key with the first value the transform
  emits, and yields nothing when the transform emits nothing.
\<close>

definition zip_of :: "string \<Rightarrow> string list \<Rightarrow> (string \<times> string) list" where
  "zip_of key emitted = (case emitted of [] \<Rightarrow> [] | v # _ \<Rightarrow> [(key, v)])"

text \<open>
  The compilers \<^verbatim>\<open>transformStyle\<close> and \<^verbatim>\<open>transformScript\<close> are parameters: given the
  options \<^verbatim>\<open>from\<close> and \<^verbatim>\<open>to\<close> they return the values their observable emits. \<open>files\<close>
  are the files that \<^verbatim>\<open>resolve\<close> found for the pattern of the stage, in the order in
  which their transforms came back (\<^verbatim>\<open>mergeMap\<close>). The key of a pair is the file with its
  new extension.
\<close>

definition stylesheets ::
  "string \<Rightarrow> (string \<Rightarrow> string \<Rightarrow> string list) \<Rightarrow> string list \<Rightarrow> (string \<times> string) list" where
  "stylesheets base transformStyle files =
     concat (map (\<lambda>file. zip_of (ext file ''.css'')
                    (transformStyle (''src/'' @ file) (ext (base @ ''/'' @ file) ''.css'')))
               files)"

definition javascripts ::
  "string \<Rightarrow> (string \<Rightarrow> string \<Rightarrow> string list) \<Rightarrow> string list \<Rightarrow> (string \<times> string) list" where
  "javascripts base transformScript files =
     concat (map (\<lambda>file. zip_of (ext file ''.js'')
                    (transformScript (''src/'' @ file) (ext (base @ ''/'' @ file) ''.js'')))
               files)"

text \<open>
  The patterns of the two stages, \<^verbatim>\<open>**/[!_]*.scss\<close> and \<^verbatim>\<open>**/{bundle,search}.ts\<close>, as
  conditions on the last component of a path.
\<close>

definition basename :: "string \<Rightarrow> string" where
  "basename p = rev (takeWhile (\<lambda>c. c \<noteq> CHR ''/'') (rev p))"

definition style_input :: "string \<Rightarrow> bool" where
  "style_input file =
     (case basename file of [] \<Rightarrow> False | c # rest \<Rightarrow> c \<noteq> CHR ''_'' \<and> suffix ''.scss'' rest)"

definition script_input :: "string \<Rightarrow> bool" where
  "script_input file = (basename file = ''bundle.ts'' \<or> basename file = ''search.ts'')"

subsection \<open>The template transform\<close>

definition banner :: string where
  "banner = ''{#-'' @ [LF] @ ''  This file was automatically generated - do not edit'' @ [LF]
     @ ''-#}'' @ [LF]"

text \<open>
  The manifest is applied with \<^verbatim>\<open>new RegExp(`('|")${key}\\1`, "g")\<close>: the key is pasted
  into the source of a regular expression and is read as one. The matching is spelled
  out here for the keys made of characters that stand for themselves and of dots: a dot
  matches every character but a line terminator. \<open>key_atoms\<close> gives \<open>None\<close> for a key
  with another character of the expression syntax (\<^verbatim>\<open>^ $ \ * + ? ( ) [ ] { } |\<close>);
  what the expression of such a key does is left to the parameter \<open>regexp\<close> of
  \<open>apply_manifest\<close> below.
\<close>

datatype atom = Lit char | AnyChar

definition syntax_character :: "char \<Rightarrow> bool" where
  "syntax_character c = (c \<in> set ''^$*+?()[]{}|'' \<or> c = backslash)"

fun key_atoms :: "string \<Rightarrow> atom list option" where
  "key_atoms [] = Some []"
| "key_atoms (c # cs) =
     (if syntax_character c then None
      else map_option ((#) (if c = CHR ''.'' then AnyChar else Lit c)) (key_atoms cs))"

fun atom_matches :: "atom \<Rightarrow> char \<Rightarrow> bool" where
  "atom_matches (Lit a) c = (a = c)"
| "atom_matches AnyChar c = (c \<noteq> LF \<and> c \<noteq> CR)"

fun match_atoms :: "atom list \<Rightarrow> string \<Rightarrow> bool" where
  "match_atoms [] s = True"
| "match_atoms (a # as) [] = False"
| "match_atoms (a # as) (c # s) = (atom_matches a c \<and> match_atoms as s)"

text \<open>A match of \<^verbatim>\<open>('|")key\1\<close> at the start of \<open>s\<close>: the quote it opens with.\<close>

definition match_here :: "atom list \<Rightarrow> string \<Rightarrow> char option" where
  "match_here as s =
     (case s of
        [] \<Rightarrow> None
      | q # s' \<Rightarrow>
          if (q = squote \<or> q = dquote) \<and> match_atoms as s'
             \<and> take 1 (drop (length as) s') = [q]
          then Some q else None)"

text \<open>
  \<^verbatim>\<open>data.replace(regexp, template)\<close> with the flag \<^verbatim>\<open>g\<close>: the matches are taken from
  left to right, each search starting where the match before ended, and every match is
  replaced by the expansion of the template with the quote as capture 1. \<open>str\<close> is the
  whole input and \<open>pos\<close> the position of the remaining text in it.
\<close>

function regexp_replace :: "atom list \<Rightarrow> string \<Rightarrow> string \<Rightarrow> nat \<Rightarrow> string \<Rightarrow> string" where
  "regexp_replace as tmpl str pos [] = []"
| "regexp_replace as tmpl str pos (c # cs) =
     (case match_here as (c # cs) of
        None \<Rightarrow> c # regexp_replace as tmpl str (pos + 1) cs
      | Some q \<Rightarrow>
          get_substitution (take (length as + 2) (c # cs)) str pos [[q]] tmpl
          @ regexp_replace as tmpl str (pos + (length as + 2)) (drop (length as + 1) cs))"
  by pat_completeness auto
termination
  by (relation "measure (\<lambda>(as, tmpl, str, pos, s). length s)") auto

text \<open>
  \<^verbatim>\<open>for (const [key, value] of manifest) data = data.replace(..., `$1${value}$1`)\<close>:
  the entries are applied one after the other, in the order of the \<^verbatim>\<open>Map\<close>, each to
  the result of the one before.

  The regular-expression engine is the parameter \<open>regexp\<close> for the keys that
  \<open>key_atoms\<close> does not spell out: \<open>regexp key\<close> is \<open>None\<close> when
  \<^verbatim>\<open>new RegExp(`('|")${key}\\1`, "g")\<close> throws a syntax error, which ends the transform
  without a result, and otherwise the function that takes the replacement template and
  the data to what \<^verbatim>\<open>data.replace\<close> returns for that expression.
\<close>

fun apply_manifest ::
  "(string \<Rightarrow> (string \<Rightarrow> string \<Rightarrow> string) option) \<Rightarrow> manifest \<Rightarrow> string \<Rightarrow> string option" where
  "apply_manifest regexp [] data = Some data"
| "apply_manifest regexp ((key, v) # m) data =
     (case key_atoms key of
        Some as \<Rightarrow>
          apply_manifest regexp m (regexp_replace as (''$1'' @ v @ ''$1'') data 0 data)
      | None \<Rightarrow>
          (case regexp key of
             None \<Rightarrow> None
           | Some r \<Rightarrow> apply_manifest regexp m (r (''$1'' @ v @ ''$1'') data)))"

text \<open>\<^verbatim>\<open>data.replace(/\r\n/gm, "\n")\<close>\<close>

fun normalize_line_feeds :: "string \<Rightarrow> string" where
  "normalize_line_feeds (c # d # s) =
     (if c = CR \<and> d = LF then LF # normalize_line_feeds s
      else c # normalize_line_feeds (d # s))"
| "normalize_line_feeds s = s"

text \<open>
  \<^verbatim>\<open>html.replace(/^\s*[\r\n]/gm, "")\<close>: at the start of a line the longest run of white
  space is taken and given back up to its last line terminator; that much is deleted.
  Without a line terminator in the run there is no match at that position.
\<close>

definition is_space :: "char \<Rightarrow> bool" where
  "is_space c = (c \<in> {CHR 0x09, LF, CHR 0x0B, CHR 0x0C, CR, CHR 0x20, CHR 0xA0})"

definition is_line_terminator :: "char \<Rightarrow> bool" where
  "is_line_terminator c = (c = LF \<or> c = CR)"

definition blank_prefix :: "string \<Rightarrow> nat" where
  "blank_prefix s =
     length (dropWhile (\<lambda>c. \<not> is_line_terminator c) (rev (takeWhile is_space s)))"

function strip_blank_lines :: "bool \<Rightarrow> string \<Rightarrow> string" where
  "strip_blank_lines line_start [] = []"
| "strip_blank_lines line_start (c # s) =
     (if line_start \<and> 0 < blank_prefix (c # s)
      then strip_blank_lines True (drop (blank_prefix (c # s)) (c # s))
      else c # strip_blank_lines (is_line_terminator c) s)"
  by pat_completeness auto
termination
  by (relation "measure (\<lambda>(b, s). length s)") auto

text \<open>
  The \<^verbatim>\<open>transform\<close> callback of the template pass. \<open>optimize\<close> is
  \<^verbatim>\<open>process.argv.includes("--optimize")\<close>, \<open>minhtml\<close> the HTML minifier with the
  options of the script. The banner is put in front of what the minifier returned, after
  the blank lines were taken out of it. The result is \<open>None\<close> when the transform throws
  on a key. The minifier is a function here: a call that rejects ends the build and
  writes nothing, and is not a result of the model.
\<close>

definition transform ::
  "bool \<Rightarrow> (string \<Rightarrow> (string \<Rightarrow> string \<Rightarrow> string) option) \<Rightarrow> manifest \<Rightarrow> (string \<Rightarrow> string)
     \<Rightarrow> string \<Rightarrow> string option" where
  "transform optimize regexp manifest minhtml data =
     map_option
       (\<lambda>data'. banner @ strip_blank_lines True (minhtml (normalize_line_feeds data')))
       (if optimize then apply_manifest regexp manifest data else Some data)"

section \<open>The pipeline as a state machine\<close>

text \<open>
  The script builds one graph of observables and subscribes to it once. What happens
  afterwards is a sequence of events delivered on a single thread: a copy pass completes,
  a watched file changes, the batch of a stage completes, the template pass reads a
  template or completes. The machine below takes one event at a time; the operators of the
  graph decide what each event does. Everything an operator does within one event happens
  at once, as it does in one JavaScript task.
\<close>

subsection \<open>The asset copy passes\<close>

record copy_pass =
  pattern :: string
  from_dir :: string
  to_dir :: string
  via_minsvg :: bool

text \<open>The twelve calls of \<^verbatim>\<open>copyAll\<close> that \<^verbatim>\<open>assets$\<close> concatenates, in their order.\<close>

definition assets :: "string \<Rightarrow> copy_pass list" where
  "assets base =
    [\<lparr>pattern = ''*.svg'', from_dir = ''node_modules/@mdi/svg/svg'',
      to_dir = base @ ''/.icons/material'', via_minsvg = True\<rparr>,
     \<lparr>pattern = ''../LICENSE'', from_dir = ''node_modules/@mdi/svg/svg'',
      to_dir = base @ ''/.icons/material'', via_minsvg = True\<rparr>,
     \<lparr>pattern = ''*.svg'', from_dir = ''node_modules/@primer/octicons/build/svg'',
      to_dir = base @ ''/.icons/octicons'', via_minsvg = True\<rparr>,
     \<lparr>pattern = ''../../LICENSE'', from_dir = ''node_modules/@primer/octicons/build/svg'',
      to_dir = base @ ''/.icons/octicons'', via_minsvg = True\<rparr>,
     \<lparr>pattern = ''**/*.svg'', from_dir = ''node_modules/@fortawesome/fontawesome-free/svgs'',
      to_dir = base @ ''/.icons/fontawesome'', via_minsvg = True\<rparr>,
     \<lparr>pattern = ''../LICENSE.txt'', from_dir = ''node_modules/@fortawesome/fontawesome-free/svgs'',
      to_dir = base @ ''/.icons/fontawesome'', via_minsvg = True\<rparr>,
     \<lparr>pattern = ''**/*.svg'', from_dir = ''node_modules/lucide-static/icons'',
      to_dir = base @ ''/.icons/lucide'', via_minsvg = True\<rparr>,
     \<lparr>pattern = ''../LICENSE'', from_dir = ''node_modules/lucide-static/icons'',
      to_dir = base @ ''/.icons/lucide'', via_minsvg = True\<rparr>,
     \<lparr>pattern = ''**/*.svg'', from_dir = ''node_modules/simple-icons/icons'',
      to_dir = base @ ''/.icons/simple'', via_minsvg = True\<rparr>,
     \<lparr>pattern = ''../LICENSE.md'', from_dir = ''node_modules/simple-icons/icons'',
      to_dir = base @ ''/.icons/simple'', via_minsvg = True\<rparr>,
     \<lparr>pattern = ''**/*.{jpg,png,svg,yml}'', from_dir = ''src'',
      to_dir = base, via_minsvg = False\<rparr>,
     \<lparr>pattern = ''LICENSE'', from_dir = ''src/assets/javascripts'',
      to_dir = ''dist/assets/javascripts'', via_minsvg = True\<rparr>]"

text \<open>What a copy pass does to the data of a file: \<^verbatim>\<open>transform: async data => minsvg(data)\<close>
  where the call of \<^verbatim>\<open>copyAll\<close> gives a transform, nothing otherwise.\<close>

definition copy_transform :: "(string \<Rightarrow> string) \<Rightarrow> copy_pass \<Rightarrow> string \<Rightarrow> string" where
  "copy_transform optimize p data = (if via_minsvg p then minsvg optimize data else data)"

subsection \<open>Configuration, events, state\<close>

text \<open>
  The three command-line flags, and the collaborators the machine calls: the HTML
  minifier and the regular-expression engine of the template transform. A generation is
  not a value of the program; the machine counts the triggers of the stages (the start of
  the build is generation 1, every file change begins the next) so that a trace shows in
  which generation a batch was started.
\<close>

record config =
  watch_flag :: bool
  dirty_flag :: bool
  optimize_flag :: bool
  output_root :: string
  minifier :: "string \<Rightarrow> string"
  regexp_engine :: "string \<Rightarrow> (string \<Rightarrow> string \<Rightarrow> string) option"

datatype stage = Style | Script

datatype event =
    CopyDone
  | Change stage
  | BatchDone stage "(string \<times> string) list"
  | Template string string
  | PassDone

text \<open>
  What an observer of the build sees, newest first in a trace. \<open>Emit a m\<close> and
  \<open>PassStart n a m\<close> name the \<^verbatim>\<open>Map\<close> object by its address \<open>a\<close> and give its content
  \<open>m\<close> at that moment; \<open>Write n file m out\<close> is one call of the template transform by
  pass \<open>n\<close>, with the content \<open>m\<close> that the manifest had when the call read it.
\<close>

datatype action =
    CopyStart copy_pass
  | CopyEnd copy_pass
  | StageStart stage nat
  | Fold stage nat "(string \<times> string) list"
  | Emit nat manifest
  | PassCancel nat
  | PassStart nat nat manifest
  | Write nat string manifest "string option"
  | PassEnd nat

record pass =
  pass_id :: nat
  manifest_of :: nat

record state =
  copies :: "copy_pass list"
  subscribed :: bool
  generation :: nat
  in_flight :: "stage \<Rightarrow> nat option"
  heap :: "nat \<Rightarrow> manifest"
  acc :: nat
  active :: "pass option"
  passes :: nat
  trace :: "action list"

subsection \<open>The operators\<close>

text \<open>
  \<^verbatim>\<open>scan(reducer, new Map())\<close>: the reducer sets the pairs in the \<^verbatim>\<open>Map\<close> it is given
  as \<open>prev\<close> and returns that same object (\<^verbatim>\<open>next.set(...)\<close> returns \<^verbatim>\<open>next\<close>), which
  \<^verbatim>\<open>scan\<close> keeps as its accumulator and emits. The heap maps the address of a
  \<^verbatim>\<open>Map\<close> to its content.
\<close>

definition scan_step ::
  "string \<Rightarrow> (nat \<Rightarrow> manifest) \<Rightarrow> nat \<Rightarrow> (string \<times> string) list \<Rightarrow> (nat \<Rightarrow> manifest) \<times> nat" where
  "scan_step base h prev mapping = (h(prev := manifest_reducer base (h prev) mapping), prev)"

text \<open>
  Subscribing to \<^verbatim>\<open>templates$\<close> subscribes to \<^verbatim>\<open>manifest$\<close>, whose \<^verbatim>\<open>merge\<close>
  subscribes to the trigger of the style stage and then to that of the script stage.
  Either trigger begins with \<^verbatim>\<open>startWith("*")\<close>, on which \<^verbatim>\<open>switchMap\<close> subscribes to
  the stage: its transforms are now in flight.
\<close>

definition subscribe_templates :: "state \<Rightarrow> state" where
  "subscribe_templates st =
     st\<lparr>subscribed := True, generation := 1, in_flight := (\<lambda>s. Some 1),
        trace := StageStart Script 1 # StageStart Style 1 # trace st\<rparr>"

text \<open>\<^verbatim>\<open>concat\<close>: the next copy pass is subscribed when the one before has completed, and
  \<^verbatim>\<open>templates$\<close> when none is left.\<close>

fun start_copies :: "copy_pass list \<Rightarrow> state \<Rightarrow> state" where
  "start_copies [] st = subscribe_templates (st\<lparr>copies := []\<rparr>)"
| "start_copies (p # ps) st = st\<lparr>copies := p # ps, trace := CopyStart p # trace st\<rparr>"

text \<open>\<^verbatim>\<open>build$ = dirty ? merge(templates$) : concat(assets$, templates$)\<close>, subscribed.
  The one \<^verbatim>\<open>Map\<close> of the program, the seed of \<^verbatim>\<open>scan\<close>, is at address 0.\<close>

definition init :: "config \<Rightarrow> state" where
  "init c =
     (let st0 = \<lparr>copies = [], subscribed = False, generation = 0, in_flight = (\<lambda>s. None),
                 heap = (\<lambda>a. []), acc = 0, active = None, passes = 0, trace = []\<rparr>
      in if dirty_flag c then subscribe_templates st0
         else start_copies (assets (output_root c)) st0)"

text \<open>
  One event.

  \<^item> \<open>CopyDone\<close>: the running copy pass completes.
  \<^item> \<open>Change s\<close>: a file watched for stage \<open>s\<close> changed. The trigger exists with
    \<^verbatim>\<open>--watch\<close> only; its \<^verbatim>\<open>switchMap\<close> drops the batch in flight, if any, and
    subscribes to the stage again.
  \<^item> \<open>BatchDone s pairs\<close>: the stage completed and \<^verbatim>\<open>toArray\<close> emits all its pairs as
    one array (what \<open>stylesheets\<close> or \<open>javascripts\<close> gives for the files and the
    compiler of that run). \<^verbatim>\<open>scan\<close> folds them and emits the manifest, on which the
    \<^verbatim>\<open>switchMap\<close> of \<^verbatim>\<open>templates$\<close> unsubscribes the running template pass and subscribes
    to a new \<^verbatim>\<open>copyAll\<close>, whose transform closes over the emitted \<^verbatim>\<open>Map\<close>.
  \<^item> \<open>Template file data\<close>: the running pass calls its transform on a template; the
    transform reads the \<^verbatim>\<open>Map\<close> it closed over as it is now.
  \<^item> \<open>PassDone\<close>: the running pass completes.

  An event for which nothing is subscribed changes nothing. A collaborator that fails
  ends the build with its error; the events are those of a build that goes on.
\<close>

fun step :: "config \<Rightarrow> state \<Rightarrow> event \<Rightarrow> state" where
  "step c st CopyDone =
     (case copies st of
        [] \<Rightarrow> st
      | p # ps \<Rightarrow> start_copies ps (st\<lparr>trace := CopyEnd p # trace st\<rparr>))"
| "step c st (Change s) =
     (if watch_flag c \<and> subscribed st
      then st\<lparr>generation := Suc (generation st),
              in_flight := (in_flight st)(s := Some (Suc (generation st))),
              trace := StageStart s (Suc (generation st)) # trace st\<rparr>
      else st)"
| "step c st (BatchDone s pairs) =
     (case in_flight st s of
        None \<Rightarrow> st
      | Some g \<Rightarrow>
          (case scan_step (output_root c) (heap st) (acc st) pairs of
             (h, a) \<Rightarrow>
               st\<lparr>in_flight := (in_flight st)(s := None),
                  heap := h,
                  acc := a,
                  active := Some \<lparr>pass_id = Suc (passes st), manifest_of = a\<rparr>,
                  passes := Suc (passes st),
                  trace := PassStart (Suc (passes st)) a (h a)
                           # (case active st of None \<Rightarrow> [] | Some p \<Rightarrow> [PassCancel (pass_id p)])
                           @ Emit a (h a) # Fold s g pairs # trace st\<rparr>))"
| "step c st (Template file data) =
     (case active st of
        None \<Rightarrow> st
      | Some p \<Rightarrow>
          st\<lparr>trace := Write (pass_id p) file (heap st (manifest_of p))
                          (transform (optimize_flag c) (regexp_engine c)
                             (heap st (manifest_of p)) (minifier c) data)
                        # trace st\<rparr>)"
| "step c st PassDone =
     (case active st of
        None \<Rightarrow> st
      | Some p \<Rightarrow> st\<lparr>active := None, trace := PassEnd (pass_id p) # trace st\<rparr>)"

definition run :: "config \<Rightarrow> event list \<Rightarrow> state" where
  "run c es = foldl (step c) (init c) es"

subsection \<open>Reading a trace\<close>

text \<open>All pairs folded in a trace, oldest batch first.\<close>

fun folded :: "action list \<Rightarrow> (string \<times> string) list" where
  "folded [] = []"
| "folded (Fold s g pairs # l) = folded l @ pairs"
| "folded (x # l) = folded l"

text \<open>The content of the most recent emission.\<close>

fun last_emit :: "action list \<Rightarrow> manifest option" where
  "last_emit [] = None"
| "last_emit (Emit a m # l) = Some m"
| "last_emit (x # l) = last_emit l"

text \<open>The template pass that is running at the end of a trace.\<close>

fun current_pass :: "action list \<Rightarrow> nat option" where
  "current_pass [] = None"
| "current_pass (PassStart n a m # l) = Some n"
| "current_pass (PassCancel n # l) = None"
| "current_pass (PassEnd n # l) = None"
| "current_pass (x # l) = current_pass l"

text \<open>The passes that made the calls of the transform in a trace, and the manifests
  that the calls of pass \<open>n\<close> read.\<close>

fun write_ids :: "action list \<Rightarrow> nat list" where
  "write_ids [] = []"
| "write_ids (Write k f m out # l) = k # write_ids l"
| "write_ids (x # l) = write_ids l"

fun read_by :: "nat \<Rightarrow> action list \<Rightarrow> manifest list" where
  "read_by n [] = []"
| "read_by n (Write k f m out # l) = (if k = n then m # read_by n l else read_by n l)"
| "read_by n (x # l) = read_by n l"

text \<open>
  What holds of an entry with respect to the trace \<open>l\<close> before it, and of every entry of
  a trace.
\<close>

fun entry_ok :: "config \<Rightarrow> action \<Rightarrow> action list \<Rightarrow> bool" where
  "entry_ok c (CopyStart p) l = (\<not> dirty_flag c)"
| "entry_ok c (CopyEnd p) l = True"
| "entry_ok c (StageStart s g) l =
     (dirty_flag c \<or> (\<forall>p\<in>set (assets (output_root c)). CopyEnd p \<in> set l))"
| "entry_ok c (Fold s g pairs) l = True"
| "entry_ok c (Emit a m) l =
     (a = 0 \<and> m = manifest_reducer (output_root c) [] (folded l)
      \<and> (case l of Fold s g pairs # l' \<Rightarrow> True | _ \<Rightarrow> False))"
| "entry_ok c (PassCancel n) l = (current_pass l = Some n)"
| "entry_ok c (PassStart n a m) l =
     (a = 0 \<and> m = manifest_reducer (output_root c) [] (folded l) \<and> last_emit l = Some m
      \<and> current_pass l = None)"
| "entry_ok c (Write n f m out) l =
     (current_pass l = Some n \<and> last_emit l = Some m
      \<and> m = manifest_reducer (output_root c) [] (folded l))"
| "entry_ok c (PassEnd n) l =
     (current_pass l = Some n \<and> (\<forall>m\<in>set (read_by n l). last_emit l = Some m))"

text \<open>
  An emission is followed at once by the cancellation of the running pass, if there is
  one, and by the start of a new pass; a trace never ends between them.
\<close>

fun follows_ok :: "action \<Rightarrow> action list \<Rightarrow> bool" where
  "follows_ok x (Emit a m # l) =
     (case x of PassCancel k \<Rightarrow> True | PassStart n a' m' \<Rightarrow> True | _ \<Rightarrow> False)"
| "follows_ok x (PassCancel k # l) = (case x of PassStart n a m \<Rightarrow> True | _ \<Rightarrow> False)"
| "follows_ok x l = True"

fun settled :: "action list \<Rightarrow> bool" where
  "settled (Emit a m # l) = False"
| "settled (PassCancel k # l) = False"
| "settled l = True"

fun wf_trace :: "config \<Rightarrow> action list \<Rightarrow> bool" where
  "wf_trace c [] = True"
| "wf_trace c (x # l) = (entry_ok c x l \<and> follows_ok x l \<and> wf_trace c l)"

text \<open>The state agrees with its trace.\<close>

definition mirrors :: "config \<Rightarrow> state \<Rightarrow> bool" where
  "mirrors c st =
     (acc st = 0 \<and> settled (trace st)
      \<and> heap st 0 = manifest_reducer (output_root c) [] (folded (trace st))
      \<and> map_option pass_id (active st) = current_pass (trace st)
      \<and> (\<forall>k\<in>set (write_ids (trace st)). k \<le> passes st)
      \<and> (case active st of
            None \<Rightarrow> True
          | Some p \<Rightarrow>
              manifest_of p = 0 \<and> pass_id p \<le> passes st
              \<and> last_emit (trace st) = Some (heap st 0)
              \<and> (\<forall>m\<in>set (read_by (pass_id p) (trace st)). m = heap st 0)))"

text \<open>The copy phase: a pass of \<^verbatim>\<open>assets$\<close> is still to be completed or has ended.\<close>

definition copy_phase :: "config \<Rightarrow> state \<Rightarrow> bool" where
  "copy_phase c st =
     ((subscribed st \<longrightarrow> copies st = [])
      \<and> (dirty_flag c \<longrightarrow> copies st = [])
      \<and> (\<not> dirty_flag c \<longrightarrow>
            set (assets (output_root c)) \<subseteq> set (copies st) \<union> {p. CopyEnd p \<in> set (trace st)}))"

definition coherent :: "config \<Rightarrow> state \<Rightarrow> bool" where
  "coherent c st = (wf_trace c (trace st) \<and> mirrors c st \<and> copy_phase c st)"

section \<open>Properties\<close>

subsection \<open>Replacement templates without a dollar sign\<close>

lemma get_substitution_plain:
  "CHR ''$'' \<notin> set tmpl \<Longrightarrow> get_substitution matched str position captures tmpl = tmpl"
  by (induction matched str position captures tmpl rule: get_substitution.induct) auto

lemma indexOf_empty_pattern: "indexOf s [] = Some 0"
  by (cases s) simp_all

lemma replace_empty_pattern:
  "replace s [] repl = get_substitution [] s 0 [] repl @ s"
  by (simp add: replace_def indexOf_empty_pattern)

subsection \<open>The extension of a name without a dot\<close>

lemma extname_loop_no_dot:
  "startDot st = - 1 \<Longrightarrow> \<forall>j<i. path ! j \<noteq> CHR ''.''
     \<Longrightarrow> startDot (extname_loop path i st) = - 1"
proof (induction i arbitrary: st)
  case 0
  then show ?case by simp
next
  case (Suc i)
  have no_dot: "path ! i \<noteq> CHR ''.''" and rest: "\<forall>j<i. path ! j \<noteq> CHR ''.''"
    using Suc.prems(2) by auto
  show ?case
    using Suc.IH [OF _ rest] Suc.prems(1) no_dot
    by (simp add: Let_def)
qed

lemma extname_no_dot: "CHR ''.'' \<notin> set path \<Longrightarrow> extname path = []"
proof -
  assume a: "CHR ''.'' \<notin> set path"
  then have "\<forall>j<length path. path ! j \<noteq> CHR ''.''"
    by (metis nth_mem)
  then have "startDot (extname_loop path (length path) extname_init) = - 1"
    by (intro extname_loop_no_dot) (simp_all add: extname_init_def)
  then show ?thesis
    by (simp add: extname_def Let_def)
qed

text \<open>
  C7. An input that does not begin with \<^verbatim>\<open><\<close> is returned by \<open>minsvg\<close> as it is,
  whatever the optimiser would do with it, and so the transform of each of the copy
  passes returns it as it is: plain-text licence files are copied unchanged.
\<close>

theorem minsvg_passes_non_markup:
  "\<not> startsWith data ''<''
   \<Longrightarrow> minsvg optimize data = data
     \<and> (\<forall>p\<in>set (assets base). copy_transform optimize p data = data)"
  by (simp add: minsvg_def copy_transform_def)

theorem minsvg_passes_non_markup_witness:
  "\<not> startsWith ''MIT License'' ''<'' \<and> minsvg (\<lambda>d. []) ''MIT License'' = ''MIT License''
   \<and> list_all (\<lambda>p. copy_transform (\<lambda>d. []) p ''MIT License'' = ''MIT License'') (assets ''dist'')"
  using minsvg_passes_non_markup [of "''MIT License''" "\<lambda>d. []" "''dist''"]
  by (simp add: startsWith_def list_all_iff)

text \<open>
  C10. For a file name without a dot \<open>path.extname\<close> is empty, the empty pattern is found
  at position 0, and \<open>ext\<close> puts the expansion of the new extension in front of the
  name. The extension is a replacement template; without a dollar sign in it (the script
  passes \<^verbatim>\<open>.css\<close> and \<^verbatim>\<open>.js\<close>) the result is the extension followed by the name:
  \<^verbatim>\<open>ext("LICENSE", ".css")\<close> is \<^verbatim>\<open>.cssLICENSE\<close>.
\<close>

theorem ext_without_dot_prepends:
  "CHR ''.'' \<notin> set file
   \<Longrightarrow> ext file extension = get_substitution [] file 0 [] extension @ file
     \<and> (CHR ''$'' \<notin> set extension \<longrightarrow> ext file extension = extension @ file)"
  by (simp add: ext_def extname_no_dot replace_empty_pattern get_substitution_plain)

theorem ext_without_dot_prepends_witness:
  "CHR ''.'' \<notin> set ''LICENSE'' \<and> CHR ''$'' \<notin> set ''.css''
     \<and> ext ''LICENSE'' ''.css'' = ''.cssLICENSE''"
  using ext_without_dot_prepends [of "''LICENSE''" "''.css''"]
  by simp

subsection \<open>The manifest reducer on paths with backslashes\<close>

text \<open>
  C5. The reducer calls \<open>replace\<close> with the string pattern \<^verbatim>\<open>"\\"\<close>, which changes the
  first backslash only. For the style file \<^verbatim>\<open>assets\stylesheets\main.scss\<close> under the
  output root \<^verbatim>\<open>dist\<close>, the key and the value that are stored both keep their second
  backslash, so not every separator has become a slash.
\<close>

theorem manifest_reducer_keeps_second_backslash:
  "manifest_reducer ''dist'' []
     [(''assets'' @ [backslash] @ ''stylesheets'' @ [backslash] @ ''main.css'',
       ''dist/assets'' @ [backslash] @ ''stylesheets'' @ [backslash] @ ''main.css'')]
   = [(''assets/stylesheets'' @ [backslash] @ ''main.css'',
       ''assets/stylesheets'' @ [backslash] @ ''main.css'')]"
  by code_simp

subsection \<open>The template transform\<close>

lemma apply_manifest_None_iff:
  "apply_manifest regexp manifest data = None
   \<longleftrightarrow> (\<exists>key\<in>fst ` set manifest. key_atoms key = None \<and> regexp key = None)"
proof (induction manifest arbitrary: data)
  case Nil
  then show ?case by simp
next
  case (Cons e manifest)
  obtain key v where e: "e = (key, v)" by (cases e)
  show ?case
  proof (cases "key_atoms key")
    case (Some as)
    then show ?thesis by (simp add: e Cons.IH)
  next
    case None
    then show ?thesis by (cases "regexp key") (simp_all add: e Cons.IH)
  qed
qed

lemma prefix_banner: "prefix banner (banner @ rest)"
  by (rule prefixI) (rule refl)

lemma transform_without_optimize:
  "transform False regexp manifest minhtml data
   = Some (banner @ strip_blank_lines True (minhtml (normalize_line_feeds data)))"
  by (simp add: transform_def)

text \<open>
  C4. Without the flag the manifest is not consulted (\<open>transform_without_optimize\<close>).
  With the flag, the key \<^verbatim>\<open>assets/stylesheets/main.css\<close> is read as a regular
  expression, in which the dot matches any character: the quoted text
  \<^verbatim>\<open>"assets/stylesheets/main-css"\<close>, which is not an occurrence of the key, is
  rewritten to the quoted value as well.
\<close>

theorem apply_manifest_dot_matches_any_character:
  "apply_manifest regexp
     [(''assets/stylesheets/main.css'', ''assets/stylesheets/main.6f8f.min.css'')]
     (''<a href='' @ [dquote] @ ''assets/stylesheets/main-css'' @ [dquote] @ ''>'')
   = Some (''<a href='' @ [dquote] @ ''assets/stylesheets/main.6f8f.min.css'' @ [dquote] @ ''>'')"
  by code_simp

text \<open>
  C8. For every manifest, every template and either setting of the flag: the transform
  has no result only when the flag is set and the constructor of the regular expression
  throws on one of the keys, and then nothing is written; in every other case its result
  is the banner followed by what the minifier returned with the blank lines taken out.
  The minifier is applied to the template text only, so the banner is added after
  minification and stands first in the output.
\<close>

theorem template_output_begins_with_banner:
  "(transform optimize regexp manifest minhtml data = None
      \<longleftrightarrow> optimize \<and> (\<exists>key\<in>fst ` set manifest. key_atoms key = None \<and> regexp key = None))
   \<and> (\<forall>out. transform optimize regexp manifest minhtml data = Some out \<longrightarrow>
          prefix banner out
        \<and> (\<exists>data'. (if optimize then apply_manifest regexp manifest data else Some data)
                      = Some data'
                  \<and> out = banner @ strip_blank_lines True (minhtml (normalize_line_feeds data'))))"
proof (intro conjI allI impI)
  show "transform optimize regexp manifest minhtml data = None
      \<longleftrightarrow> optimize \<and> (\<exists>key\<in>fst ` set manifest. key_atoms key = None \<and> regexp key = None)"
    by (simp add: transform_def apply_manifest_None_iff)
next
  fix out
  assume t: "transform optimize regexp manifest minhtml data = Some out"
  then obtain data' where
    d: "(if optimize then apply_manifest regexp manifest data else Some data) = Some data'"
    and o: "out = banner @ strip_blank_lines True (minhtml (normalize_line_feeds data'))"
    unfolding transform_def by blast
  show "prefix banner out"
    unfolding o by (rule prefix_banner)
  show "\<exists>data'. (if optimize then apply_manifest regexp manifest data else Some data) = Some data'
          \<and> out = banner @ strip_blank_lines True (minhtml (normalize_line_feeds data'))"
    using d o by blast
qed

theorem template_output_begins_with_banner_witness:
  "transform True (\<lambda>key. Some (\<lambda>template data. data))
     [(''assets/stylesheets'' @ [backslash] @ ''main.css'', ''assets/stylesheets/main.6f8f.min.css''),
      (''main.css'', ''main.6f8f.min.css'')]
     (\<lambda>html. html) (''<link href='' @ [dquote] @ ''main.css'' @ [dquote] @ ''>'')
   = Some (''{#-'' @ [LF] @ ''  This file was automatically generated - do not edit'' @ [LF]
           @ ''-#}'' @ [LF] @ ''<link href='' @ [dquote] @ ''main.6f8f.min.css'' @ [dquote] @ ''>'')
   \<and> prefix banner
       (''{#-'' @ [LF] @ ''  This file was automatically generated - do not edit'' @ [LF]
        @ ''-#}'' @ [LF] @ ''<link href='' @ [dquote] @ ''main.6f8f.min.css'' @ [dquote] @ ''>'')"
proof -
  let ?out = "''{#-'' @ [LF] @ ''  This file was automatically generated - do not edit'' @ [LF]
        @ ''-#}'' @ [LF] @ ''<link href='' @ [dquote] @ ''main.6f8f.min.css'' @ [dquote] @ ''>''"
  have t: "transform True (\<lambda>key. Some (\<lambda>template data. data))
     [(''assets/stylesheets'' @ [backslash] @ ''main.css'', ''assets/stylesheets/main.6f8f.min.css''),
      (''main.css'', ''main.6f8f.min.css'')]
     (\<lambda>html. html) (''<link href='' @ [dquote] @ ''main.css'' @ [dquote] @ ''>'') = Some ?out"
    by code_simp
  from template_output_begins_with_banner
         [of True "\<lambda>key. Some (\<lambda>template data. data)" _ "\<lambda>html. html"] t
  have "prefix banner ?out" by blast
  with t show ?thesis by (rule conjI)
qed

subsection \<open>The extension of a path that ends in one\<close>

lemma extname_loop_extension:
  "\<forall>j. k \<le> j \<and> j < k + m \<longrightarrow> path ! j \<noteq> CHR ''.'' \<and> path ! j \<noteq> CHR ''/''
   \<Longrightarrow> startDot st = - 1
   \<Longrightarrow> extname_loop path (k + m) st =
       extname_loop path k
         (if m = 0 \<or> end_pos st \<noteq> - 1 then st
          else st\<lparr>matchedSlash := False, end_pos := int (k + m)\<rparr>)"
proof (induction m arbitrary: st)
  case 0
  then show ?case by simp
next
  case (Suc m)
  have c: "path ! (k + m) \<noteq> CHR ''.''" "path ! (k + m) \<noteq> CHR ''/''"
    using Suc.prems(1) by auto
  have rest: "\<forall>j. k \<le> j \<and> j < k + m \<longrightarrow> path ! j \<noteq> CHR ''.'' \<and> path ! j \<noteq> CHR ''/''"
    using Suc.prems(1) by auto
  show ?case
  proof (cases "end_pos st = - 1")
    case True
    let ?st1 = "st\<lparr>matchedSlash := False, end_pos := int (k + m) + 1\<rparr>"
    have "extname_loop path (k + Suc m) st = extname_loop path (k + m) ?st1"
      using c True Suc.prems(2) by (simp add: Let_def)
    also have "\<dots> = extname_loop path k ?st1"
      using Suc.IH [OF rest, of ?st1] Suc.prems(2) by simp
    finally show ?thesis using True by (simp add: add.commute)
  next
    case False
    have "extname_loop path (k + Suc m) st = extname_loop path (k + m) st"
      using c False Suc.prems(2) by (simp add: Let_def)
    also have "\<dots> = extname_loop path k st"
      using Suc.IH [OF rest, of st] Suc.prems(2) False by simp
    finally show ?thesis using False by simp
  qed
qed

lemma extname_loop_before_dot:
  "startDot st = k \<Longrightarrow> end_pos st = n \<Longrightarrow> preDotState st \<noteq> 0 \<Longrightarrow> k \<noteq> - 1 \<Longrightarrow> n \<noteq> - 1
   \<Longrightarrow> startDot (extname_loop path i st) = k
     \<and> end_pos (extname_loop path i st) = n
     \<and> preDotState (extname_loop path i st) \<noteq> 0"
proof (induction i arbitrary: st)
  case 0
  then show ?case by simp
next
  case (Suc i)
  show ?case
  proof (cases "path ! i = CHR ''/''")
    case True
    then show ?thesis using Suc by simp
  next
    case False
    let ?st2 = "if path ! i = CHR ''.'' then
                  (if preDotState st \<noteq> 1 then st\<lparr>preDotState := 1\<rparr> else st)
                else st\<lparr>preDotState := - 1\<rparr>"
    have step: "extname_loop path (Suc i) st = extname_loop path i ?st2"
      using False Suc.prems by (simp add: Let_def)
    have "startDot ?st2 = k" "end_pos ?st2 = n" "preDotState ?st2 \<noteq> 0"
      using Suc.prems by auto
    from Suc.IH [OF this Suc.prems(4,5)] show ?thesis
      unfolding step .
  qed
qed

lemma extname_of_extension:
  assumes stem: "stem \<noteq> []" "last stem \<noteq> CHR ''/''"
    and e: "e \<noteq> []" "CHR ''.'' \<notin> set e" "CHR ''/'' \<notin> set e"
  shows "extname (stem @ CHR ''.'' # e) = CHR ''.'' # e"
proof -
  let ?path = "stem @ CHR ''.'' # e"
  let ?k = "length stem"
  let ?n = "length ?path"
  obtain k' where k': "?k = Suc k'" using stem(1) by (cases stem) auto
  have n: "?n = Suc ?k + length e" by simp
  have ext_chars: "\<forall>j. Suc ?k \<le> j \<and> j < Suc ?k + length e
                   \<longrightarrow> ?path ! j \<noteq> CHR ''.'' \<and> ?path ! j \<noteq> CHR ''/''"
  proof (intro allI impI)
    fix j assume j: "Suc ?k \<le> j \<and> j < Suc ?k + length e"
    then have "?path ! j = e ! (j - Suc ?k)"
      by (simp add: nth_append nth_Cons')
    moreover have "e ! (j - Suc ?k) \<in> set e" using j by (intro nth_mem) auto
    ultimately show "?path ! j \<noteq> CHR ''.'' \<and> ?path ! j \<noteq> CHR ''/''"
      using e by metis
  qed
  let ?s1 = "extname_init\<lparr>matchedSlash := False, end_pos := int ?n\<rparr>"
  have p1: "extname_loop ?path ?n extname_init = extname_loop ?path (Suc ?k) ?s1"
    using extname_loop_extension [OF ext_chars, of extname_init] e(1)
    by (simp add: extname_init_def)
  let ?s2 = "?s1\<lparr>startDot := int ?k\<rparr>"
  have dot: "?path ! ?k = CHR ''.''" by simp
  have p2: "extname_loop ?path (Suc ?k) ?s1 = extname_loop ?path ?k ?s2"
    using dot by (simp add: extname_init_def Let_def)
  have before: "?path ! k' = last stem"
    using k' stem(1) by (simp add: nth_append last_conv_nth)
  let ?s3 = "if last stem = CHR ''.'' then ?s2\<lparr>preDotState := 1\<rparr> else ?s2\<lparr>preDotState := - 1\<rparr>"
  have p3: "extname_loop ?path ?k ?s2 = extname_loop ?path k' ?s3"
    unfolding k' using before stem(2) by (simp add: extname_init_def Let_def)
  have "startDot ?s3 = int ?k" "end_pos ?s3 = int ?n" "preDotState ?s3 \<noteq> 0"
    by simp_all
  from extname_loop_before_dot [OF this, of ?path k']
  have fin: "startDot (extname_loop ?path k' ?s3) = int ?k"
    "end_pos (extname_loop ?path k' ?s3) = int ?n"
    "preDotState (extname_loop ?path k' ?s3) \<noteq> 0"
    by simp_all
  have loop: "extname_loop ?path ?n extname_init = extname_loop ?path k' ?s3"
    using p1 p2 p3 by simp
  have "int ?k \<noteq> int ?n - 1" using e(1) by (cases e) auto
  then show ?thesis
    unfolding extname_def loop Let_def using fin by simp
qed

subsection \<open>Replacing the extension; keys and values of the manifest\<close>

lemma indexOf_prefix: "prefix pat s \<Longrightarrow> indexOf s pat = Some 0"
  by (cases s) simp_all

lemma indexOf_absent_char: "c \<notin> set s \<Longrightarrow> indexOf s [c] = None"
  by (induction s) auto

lemma indexOf_drop_prefix:
  "indexOf (p @ s) pat = Some (length p + k) \<Longrightarrow> indexOf s pat = Some k"
  by (induction p) (auto split: if_splits)

lemma replace_found:
  "indexOf s pat = Some p \<Longrightarrow> CHR ''$'' \<notin> set repl
   \<Longrightarrow> replace s pat repl = take p s @ repl @ drop (p + length pat) s"
  by (simp add: replace_def get_substitution_plain)

lemma replace_absent: "indexOf s pat = None \<Longrightarrow> replace s pat repl = s"
  by (simp add: replace_def)

lemma ext_replaces_extension:
  assumes "stem \<noteq> []" "last stem \<noteq> CHR ''/''"
    and "e \<noteq> []" "CHR ''.'' \<notin> set e" "CHR ''/'' \<notin> set e"
    and "indexOf (stem @ CHR ''.'' # e) (CHR ''.'' # e) = Some (length stem)"
    and "CHR ''$'' \<notin> set new"
  shows "ext (stem @ CHR ''.'' # e) new = stem @ new"
  using assms by (simp add: ext_def extname_of_extension replace_found)

lemma manifest_key_plain: "backslash \<notin> set key \<Longrightarrow> manifest_key key = key"
  by (simp add: manifest_key_def replace_absent indexOf_absent_char)

lemma manifest_value_strips_base:
  "backslash \<notin> set base \<Longrightarrow> backslash \<notin> set rest
   \<Longrightarrow> manifest_value base (base @ ''/'' @ rest) = rest"
proof -
  assume a: "backslash \<notin> set base" "backslash \<notin> set rest"
  then have "indexOf (base @ ''/'' @ rest) [backslash] = None"
    by (intro indexOf_absent_char) simp
  moreover have "indexOf (base @ ''/'' @ rest) (base @ ''/'') = Some 0"
    by (intro indexOf_prefix) simp
  ultimately show ?thesis
    by (simp add: manifest_value_def replace_absent replace_found)
qed

lemma map_set_keys: "fst ` set (map_set m k v) = insert k (fst ` set m)"
  by (induction m k v rule: map_set.induct) auto

lemma manifest_reducer_keys:
  "fst ` set (manifest_reducer base prev mapping)
   = fst ` set prev \<union> manifest_key ` fst ` set mapping"
  unfolding manifest_reducer_def
proof (induction mapping arbitrary: prev)
  case Nil
  then show ?case by simp
next
  case (Cons p mapping)
  obtain key v where p: "p = (key, v)" by (cases p)
  show ?case
    by (simp add: p Cons.IH map_set_keys)
qed

lemma stylesheets_keys:
  "fst ` set (stylesheets base transformStyle files) \<subseteq> (\<lambda>file. ext file ''.css'') ` set files"
  by (auto simp: stylesheets_def zip_of_def split: list.splits)

lemma javascripts_keys:
  "fst ` set (javascripts base transformScript files) \<subseteq> (\<lambda>file. ext file ''.js'') ` set files"
  by (auto simp: javascripts_def zip_of_def split: list.splits)

lemma basename_append:
  "CHR ''/'' \<notin> set x \<Longrightarrow> basename (stem @ x) = basename stem @ x"
proof -
  assume "CHR ''/'' \<notin> set x"
  then have "takeWhile (\<lambda>c. c \<noteq> CHR ''/'') (rev x @ rev stem)
             = rev x @ takeWhile (\<lambda>c. c \<noteq> CHR ''/'') (rev stem)"
    by (intro takeWhile_append2) auto
  then show ?thesis by (simp add: basename_def)
qed

lemma map_of_map_set: "map_of (map_set m k v) = (map_of m)(k \<mapsto> v)"
  by (induction m k v rule: map_set.induct) (auto simp: fun_eq_iff)

lemma manifest_reducer_append:
  "manifest_reducer base prev (xs @ ys) = manifest_reducer base (manifest_reducer base prev xs) ys"
  by (simp add: manifest_reducer_def)

lemma manifest_reducer_Nil: "manifest_reducer base prev [] = prev"
  by (simp add: manifest_reducer_def)

lemma basename_suffix: "\<exists>dir. p = dir @ basename p \<and> CHR ''/'' \<notin> set (basename p)"
proof -
  have "rev p = takeWhile (\<lambda>c. c \<noteq> CHR ''/'') (rev p) @ dropWhile (\<lambda>c. c \<noteq> CHR ''/'') (rev p)"
    by simp
  then have "p = rev (dropWhile (\<lambda>c. c \<noteq> CHR ''/'') (rev p)) @ basename p"
    unfolding basename_def by (metis rev_append rev_rev_ident)
  moreover have "CHR ''/'' \<notin> set (basename p)"
    unfolding basename_def by (auto dest: set_takeWhileD)
  ultimately show ?thesis by blast
qed

lemma style_input_split:
  assumes "style_input file"
  shows "\<exists>stem. file = stem @ ''.scss'' \<and> stem \<noteq> [] \<and> last stem \<noteq> CHR ''/''"
proof -
  from assms obtain c rest where b: "basename file = c # rest" and s: "suffix ''.scss'' rest"
    by (auto simp: style_input_def split: list.splits)
  from s obtain z where z: "rest = z @ ''.scss''" by (auto simp: suffix_def)
  obtain dir where d: "file = dir @ basename file" and ns: "CHR ''/'' \<notin> set (basename file)"
    using basename_suffix by blast
  have "file = (dir @ c # z) @ ''.scss''" using d b z by simp
  moreover have "last (dir @ c # z) \<in> set (basename file)"
    using b z last_in_set [of "c # z"] by simp
  then have "last (dir @ c # z) \<noteq> CHR ''/''" using ns by metis
  ultimately show ?thesis by blast
qed

lemma script_input_split:
  assumes "script_input file"
  shows "\<exists>stem. file = stem @ ''.ts'' \<and> stem \<noteq> [] \<and> last stem \<noteq> CHR ''/''"
proof -
  obtain dir where d: "file = dir @ basename file"
    using basename_suffix by blast
  from assms have "basename file = ''bundle'' @ ''.ts'' \<or> basename file = ''search'' @ ''.ts''"
    by (simp add: script_input_def)
  then show ?thesis
  proof
    assume "basename file = ''bundle'' @ ''.ts''"
    then have "file = (dir @ ''bundle'') @ ''.ts''" using d by simp
    moreover have "last (dir @ ''bundle'') \<noteq> CHR ''/''" by simp
    ultimately show ?thesis by blast
  next
    assume "basename file = ''search'' @ ''.ts''"
    then have "file = (dir @ ''search'') @ ''.ts''" using d by simp
    moreover have "last (dir @ ''search'') \<noteq> CHR ''/''" by simp
    ultimately show ?thesis by blast
  qed
qed

lemma css_is_no_input: "\<not> style_input (stem @ ''.css'')" "\<not> script_input (stem @ ''.css'')"
proof -
  have b: "basename (stem @ ''.css'') = basename stem @ ''.css''"
    by (intro basename_append) simp
  show "\<not> style_input (stem @ ''.css'')"
  proof
    assume "style_input (stem @ ''.css'')"
    then obtain c rest where "basename stem @ ''.css'' = c # rest" and "suffix ''.scss'' rest"
      by (auto simp: style_input_def b split: list.splits)
    then obtain z where "basename stem @ ''.css'' = (c # z) @ ''.scss''" by (auto simp: suffix_def)
    then have "rev (basename stem @ ''.css'') = rev ((c # z) @ ''.scss'')" by (rule arg_cong)
    then show False by simp
  qed
  show "\<not> script_input (stem @ ''.css'')"
  proof
    assume "script_input (stem @ ''.css'')"
    then have "basename stem @ ''.css'' = ''bundle.ts'' \<or> basename stem @ ''.css'' = ''search.ts''"
      by (simp add: script_input_def b)
    then have "rev (basename stem @ ''.css'') = rev ''bundle.ts'' \<or> rev (basename stem @ ''.css'') = rev ''search.ts''"
      by metis
    then show False by simp
  qed
qed

lemma js_is_no_input: "\<not> style_input (stem @ ''.js'')" "\<not> script_input (stem @ ''.js'')"
proof -
  have b: "basename (stem @ ''.js'') = basename stem @ ''.js''"
    by (intro basename_append) simp
  show "\<not> style_input (stem @ ''.js'')"
  proof
    assume "style_input (stem @ ''.js'')"
    then obtain c rest where "basename stem @ ''.js'' = c # rest" and "suffix ''.scss'' rest"
      by (auto simp: style_input_def b split: list.splits)
    then obtain z where "basename stem @ ''.js'' = (c # z) @ ''.scss''" by (auto simp: suffix_def)
    then have "rev (basename stem @ ''.js'') = rev ((c # z) @ ''.scss'')" by (rule arg_cong)
    then show False by simp
  qed
  show "\<not> script_input (stem @ ''.js'')"
  proof
    assume "script_input (stem @ ''.js'')"
    then have "basename stem @ ''.js'' = ''bundle.ts'' \<or> basename stem @ ''.js'' = ''search.ts''"
      by (simp add: script_input_def b)
    then have "rev (basename stem @ ''.js'') = rev ''bundle.ts'' \<or> rev (basename stem @ ''.js'') = rev ''search.ts''"
      by metis
    then show False by simp
  qed
qed

text \<open>
  Folding the batch of a stage whose normalised keys are pairwise different: every file
  whose transform emitted gets its entry, the other keys keep what they had.
\<close>

lemma stage_fold:
  assumes inj: "inj_on (\<lambda>file. manifest_key (K file)) (set files)"
  shows "(\<forall>file\<in>set files.
            map_of (manifest_reducer base prev (concat (map (\<lambda>file. zip_of (K file) (T file)) files)))
              (manifest_key (K file))
            = (case T file of [] \<Rightarrow> map_of prev (manifest_key (K file))
               | v # vs \<Rightarrow> Some (manifest_value base v)))
       \<and> (\<forall>k. k \<notin> (\<lambda>file. manifest_key (K file)) ` set files \<longrightarrow>
            map_of (manifest_reducer base prev (concat (map (\<lambda>file. zip_of (K file) (T file)) files))) k
            = map_of prev k)"
  using inj
proof (induction files rule: rev_induct)
  case Nil
  then show ?case by (simp add: manifest_reducer_Nil)
next
  case (snoc g files)
  let ?R = "\<lambda>files. manifest_reducer base prev (concat (map (\<lambda>file. zip_of (K file) (T file)) files))"
  let ?k = "\<lambda>file. manifest_key (K file)"
  have inj': "inj_on ?k (set files)" using snoc.prems by (auto simp: inj_on_def)
  note IH = snoc.IH [OF inj']
  have R: "?R (files @ [g]) = manifest_reducer base (?R files) (zip_of (K g) (T g))"
    by (simp add: manifest_reducer_append)
  have upd: "map_of (?R (files @ [g])) =
             (case T g of [] \<Rightarrow> map_of (?R files)
              | v # vs \<Rightarrow> (map_of (?R files))(?k g \<mapsto> manifest_value base v))"
    unfolding R
    by (simp add: zip_of_def manifest_reducer_def manifest_reducer_Nil map_of_map_set split: list.splits)
  have old: "T g = [] \<Longrightarrow> map_of (?R files) (?k g) = map_of prev (?k g)"
  proof (cases "g \<in> set files")
    case True
    assume "T g = []"
    then show ?thesis using IH True by force
  next
    case False
    then have "?k g \<notin> ?k ` set files" using snoc.prems by (auto simp: inj_on_def)
    then show ?thesis using IH by blast
  qed
  have g: "map_of (?R (files @ [g])) (?k g)
           = (case T g of [] \<Rightarrow> map_of prev (?k g) | v # vs \<Rightarrow> Some (manifest_value base v))"
    unfolding upd using old by (cases "T g") simp_all
  have other: "map_of (?R (files @ [g])) k = map_of (?R files) k" if "k \<noteq> ?k g" for k
    unfolding upd using that by (cases "T g") simp_all
  show ?case
  proof (intro conjI ballI allI impI)
    fix x assume f: "x \<in> set (files @ [g])"
    show "map_of (?R (files @ [g])) (?k x)
          = (case T x of [] \<Rightarrow> map_of prev (?k x) | v # vs \<Rightarrow> Some (manifest_value base v))"
    proof (cases "?k x = ?k g")
      case True
      then have "x = g" using snoc.prems f by (auto simp: inj_on_def)
      then show ?thesis using g by (simp only:)
    next
      case False
      then have "x \<in> set files" using f by auto
      then show ?thesis using other [OF False] IH by simp
    qed
  next
    fix k assume "k \<notin> ?k ` set (files @ [g])"
    then have "k \<noteq> ?k g" "k \<notin> ?k ` set files" by auto
    then show "map_of (?R (files @ [g])) k = map_of prev k"
      using other IH by simp
  qed
qed

lemma stage_entry:
  assumes stem: "stem \<noteq> []" "last stem \<noteq> CHR ''/''"
    and bs: "backslash \<notin> set base \<union> set stem"
    and e: "e \<noteq> []" "CHR ''.'' \<notin> set e" "CHR ''/'' \<notin> set e"
    and n: "CHR ''$'' \<notin> set new" "backslash \<notin> set new"
    and first: "indexOf (base @ ''/'' @ stem @ CHR ''.'' # e) (CHR ''.'' # e)
                = Some (length base + 1 + length stem)"
  shows "ext (stem @ CHR ''.'' # e) new = stem @ new"
    and "ext (base @ ''/'' @ stem @ CHR ''.'' # e) new = base @ ''/'' @ stem @ new"
    and "manifest_key (stem @ new) = stem @ new"
    and "manifest_value base (base @ ''/'' @ stem @ new) = stem @ new"
proof -
  have "indexOf ((base @ ''/'') @ stem @ CHR ''.'' # e) (CHR ''.'' # e)
        = Some (length (base @ ''/'') + length stem)"
    using first by simp
  then have "indexOf (stem @ CHR ''.'' # e) (CHR ''.'' # e) = Some (length stem)"
    by (rule indexOf_drop_prefix)
  then show "ext (stem @ CHR ''.'' # e) new = stem @ new"
    using stem e n by (intro ext_replaces_extension)
  have "ext ((base @ ''/'' @ stem) @ CHR ''.'' # e) new = (base @ ''/'' @ stem) @ new"
    using stem e n first by (intro ext_replaces_extension) simp_all
  then show "ext (base @ ''/'' @ stem @ CHR ''.'' # e) new = base @ ''/'' @ stem @ new"
    by simp
  show "manifest_key (stem @ new) = stem @ new"
    using bs n by (intro manifest_key_plain) simp
  show "manifest_value base (base @ ''/'' @ stem @ new) = stem @ new"
    using bs n by (intro manifest_value_strips_base) simp_all
qed

lemma distinct_map_set:
  "distinct (map fst m) \<Longrightarrow> distinct (map fst (map_set m k v))"
  by (induction m k v rule: map_set.induct) (auto simp: map_set_keys)

lemma distinct_manifest_reducer:
  "distinct (map fst prev) \<Longrightarrow> distinct (map fst (manifest_reducer base prev mapping))"
  unfolding manifest_reducer_def
  by (induction mapping arbitrary: prev) (auto simp: distinct_map_set)

lemma stage_file:
  assumes f: "file = stem @ CHR ''.'' # e" "stem \<noteq> []" "last stem \<noteq> CHR ''/''"
    and bs: "backslash \<notin> set base \<union> set file"
    and first: "indexOf (base @ ''/'' @ file) (CHR ''.'' # e)
                = Some (length base + 1 + (length file - Suc (length e)))"
    and e: "e \<noteq> []" "CHR ''.'' \<notin> set e" "CHR ''/'' \<notin> set e"
    and n: "n \<noteq> []" "CHR ''.'' \<notin> set n" "CHR ''/'' \<notin> set n" "CHR ''$'' \<notin> set n"
      "backslash \<notin> set n"
  shows "ext file (CHR ''.'' # n) = stem @ CHR ''.'' # n"
    and "ext file (CHR ''.'' # n) = take (length file - Suc (length e)) file @ CHR ''.'' # n"
    and "extname (ext file (CHR ''.'' # n)) = CHR ''.'' # n"
    and "ext (base @ ''/'' @ file) (CHR ''.'' # n) = base @ ''/'' @ ext file (CHR ''.'' # n)"
    and "manifest_key (ext file (CHR ''.'' # n)) = ext file (CHR ''.'' # n)"
    and "manifest_value base (base @ ''/'' @ ext file (CHR ''.'' # n)) = ext file (CHR ''.'' # n)"
proof -
  have bs': "backslash \<notin> set base \<union> set stem" using bs f(1) by simp
  have n': "CHR ''$'' \<notin> set (CHR ''.'' # n)" "backslash \<notin> set (CHR ''.'' # n)"
    using n by simp_all
  have first': "indexOf (base @ ''/'' @ stem @ CHR ''.'' # e) (CHR ''.'' # e)
                = Some (length base + 1 + length stem)"
    using first f(1) by simp
  note st = stage_entry [OF f(2,3) bs' e n' first']
  show k: "ext file (CHR ''.'' # n) = stem @ CHR ''.'' # n"
    using st(1) f(1) by simp
  show "ext file (CHR ''.'' # n) = take (length file - Suc (length e)) file @ CHR ''.'' # n"
    unfolding k using f(1) by simp
  show "extname (ext file (CHR ''.'' # n)) = CHR ''.'' # n"
    unfolding k using n by (intro extname_of_extension f(2,3)) simp_all
  show "ext (base @ ''/'' @ file) (CHR ''.'' # n) = base @ ''/'' @ ext file (CHR ''.'' # n)"
    unfolding k using st(2) f(1) by simp
  show "manifest_key (ext file (CHR ''.'' # n)) = ext file (CHR ''.'' # n)"
    unfolding k using st(3) by simp
  show "manifest_value base (base @ ''/'' @ ext file (CHR ''.'' # n)) = ext file (CHR ''.'' # n)"
    unfolding k using st(4) by simp
qed

lemma style_batch:
  assumes h: "\<forall>file\<in>set files. style_input file \<and> backslash \<notin> set base \<union> set file
        \<and> indexOf (base @ ''/'' @ file) ''.scss'' = Some (length base + 1 + (length file - 5))"
  shows "\<forall>file\<in>set files.
           ext file ''.css'' = take (length file - 5) file @ ''.css''
         \<and> extname (ext file ''.css'') = ''.css''
         \<and> \<not> style_input (ext file ''.css'') \<and> \<not> script_input (ext file ''.css'')
         \<and> ext (base @ ''/'' @ file) ''.css'' = base @ ''/'' @ ext file ''.css''
         \<and> manifest_key (ext file ''.css'') = ext file ''.css''
         \<and> manifest_value base (base @ ''/'' @ ext file ''.css'') = ext file ''.css''"
    and "inj_on (\<lambda>file. manifest_key (ext file ''.css'')) (set files)"
proof -
  have one: "\<exists>stem. x = stem @ ''.scss'' \<and> ext x ''.css'' = stem @ ''.css''
           \<and> ext x ''.css'' = take (length x - 5) x @ ''.css''
           \<and> extname (ext x ''.css'') = ''.css''
           \<and> ext (base @ ''/'' @ x) ''.css'' = base @ ''/'' @ ext x ''.css''
           \<and> manifest_key (ext x ''.css'') = ext x ''.css''
           \<and> manifest_value base (base @ ''/'' @ ext x ''.css'') = ext x ''.css''"
    if "x \<in> set files" for x
  proof -
    from h that have s: "style_input x" and bs: "backslash \<notin> set base \<union> set x"
      and first: "indexOf (base @ ''/'' @ x) ''.scss'' = Some (length base + 1 + (length x - 5))"
      by blast+
    from style_input_split [OF s] obtain stem where
      fx: "x = stem @ CHR ''.'' # ''scss''" "stem \<noteq> []" "last stem \<noteq> CHR ''/''"
      by auto
    have first': "indexOf (base @ ''/'' @ x) (CHR ''.'' # ''scss'')
                  = Some (length base + 1 + (length x - Suc (length ''scss'')))"
      using first by simp
    note st = stage_file [OF fx bs first', of "''css''"]
    show ?thesis
      using fx(1) st by (intro exI [of _ stem]) simp
  qed
  show "\<forall>file\<in>set files.
           ext file ''.css'' = take (length file - 5) file @ ''.css''
         \<and> extname (ext file ''.css'') = ''.css''
         \<and> \<not> style_input (ext file ''.css'') \<and> \<not> script_input (ext file ''.css'')
         \<and> ext (base @ ''/'' @ file) ''.css'' = base @ ''/'' @ ext file ''.css''
         \<and> manifest_key (ext file ''.css'') = ext file ''.css''
         \<and> manifest_value base (base @ ''/'' @ ext file ''.css'') = ext file ''.css''"
  proof
    fix x assume "x \<in> set files"
    from one [OF this] obtain stem where k: "ext x ''.css'' = stem @ ''.css''"
      and r: "ext x ''.css'' = take (length x - 5) x @ ''.css''"
        "extname (ext x ''.css'') = ''.css''"
        "ext (base @ ''/'' @ x) ''.css'' = base @ ''/'' @ ext x ''.css''"
        "manifest_key (ext x ''.css'') = ext x ''.css''"
        "manifest_value base (base @ ''/'' @ ext x ''.css'') = ext x ''.css''"
      by blast
    have "\<not> style_input (ext x ''.css'')" "\<not> script_input (ext x ''.css'')"
      unfolding k by (rule css_is_no_input)+
    with r show "ext x ''.css'' = take (length x - 5) x @ ''.css''
         \<and> extname (ext x ''.css'') = ''.css''
         \<and> \<not> style_input (ext x ''.css'') \<and> \<not> script_input (ext x ''.css'')
         \<and> ext (base @ ''/'' @ x) ''.css'' = base @ ''/'' @ ext x ''.css''
         \<and> manifest_key (ext x ''.css'') = ext x ''.css''
         \<and> manifest_value base (base @ ''/'' @ ext x ''.css'') = ext x ''.css''"
      by (intro conjI)
  qed
  show "inj_on (\<lambda>file. manifest_key (ext file ''.css'')) (set files)"
  proof (rule inj_onI)
    fix x y assume x: "x \<in> set files" and y: "y \<in> set files"
      and eq: "manifest_key (ext x ''.css'') = manifest_key (ext y ''.css'')"
    from one [OF x] obtain sx where sx: "x = sx @ ''.scss''" "ext x ''.css'' = sx @ ''.css''"
      "manifest_key (ext x ''.css'') = ext x ''.css''" by blast
    from one [OF y] obtain sy where sy: "y = sy @ ''.scss''" "ext y ''.css'' = sy @ ''.css''"
      "manifest_key (ext y ''.css'') = ext y ''.css''" by blast
    from eq sx sy have "sx @ ''.css'' = sy @ ''.css''" by simp
    then have "sx = sy" by (simp only: append_same_eq)
    then show "x = y" using sx(1) sy(1) by simp
  qed
qed

lemma script_batch:
  assumes h: "\<forall>file\<in>set files. script_input file \<and> backslash \<notin> set base \<union> set file
        \<and> indexOf (base @ ''/'' @ file) ''.ts'' = Some (length base + 1 + (length file - 3))"
  shows "\<forall>file\<in>set files.
           ext file ''.js'' = take (length file - 3) file @ ''.js''
         \<and> extname (ext file ''.js'') = ''.js''
         \<and> \<not> style_input (ext file ''.js'') \<and> \<not> script_input (ext file ''.js'')
         \<and> ext (base @ ''/'' @ file) ''.js'' = base @ ''/'' @ ext file ''.js''
         \<and> manifest_key (ext file ''.js'') = ext file ''.js''
         \<and> manifest_value base (base @ ''/'' @ ext file ''.js'') = ext file ''.js''"
    and "inj_on (\<lambda>file. manifest_key (ext file ''.js'')) (set files)"
proof -
  have one: "\<exists>stem. x = stem @ ''.ts'' \<and> ext x ''.js'' = stem @ ''.js''
           \<and> ext x ''.js'' = take (length x - 3) x @ ''.js''
           \<and> extname (ext x ''.js'') = ''.js''
           \<and> ext (base @ ''/'' @ x) ''.js'' = base @ ''/'' @ ext x ''.js''
           \<and> manifest_key (ext x ''.js'') = ext x ''.js''
           \<and> manifest_value base (base @ ''/'' @ ext x ''.js'') = ext x ''.js''"
    if "x \<in> set files" for x
  proof -
    from h that have s: "script_input x" and bs: "backslash \<notin> set base \<union> set x"
      and first: "indexOf (base @ ''/'' @ x) ''.ts'' = Some (length base + 1 + (length x - 3))"
      by blast+
    from script_input_split [OF s] obtain stem where
      fx: "x = stem @ CHR ''.'' # ''ts''" "stem \<noteq> []" "last stem \<noteq> CHR ''/''"
      by auto
    have first': "indexOf (base @ ''/'' @ x) (CHR ''.'' # ''ts'')
                  = Some (length base + 1 + (length x - Suc (length ''ts'')))"
      using first by simp
    note st = stage_file [OF fx bs first', of "''js''"]
    show ?thesis
      using fx(1) st by (intro exI [of _ stem]) simp
  qed
  show "\<forall>file\<in>set files.
           ext file ''.js'' = take (length file - 3) file @ ''.js''
         \<and> extname (ext file ''.js'') = ''.js''
         \<and> \<not> style_input (ext file ''.js'') \<and> \<not> script_input (ext file ''.js'')
         \<and> ext (base @ ''/'' @ file) ''.js'' = base @ ''/'' @ ext file ''.js''
         \<and> manifest_key (ext file ''.js'') = ext file ''.js''
         \<and> manifest_value base (base @ ''/'' @ ext file ''.js'') = ext file ''.js''"
  proof
    fix x assume "x \<in> set files"
    from one [OF this] obtain stem where k: "ext x ''.js'' = stem @ ''.js''"
      and r: "ext x ''.js'' = take (length x - 3) x @ ''.js''"
        "extname (ext x ''.js'') = ''.js''"
        "ext (base @ ''/'' @ x) ''.js'' = base @ ''/'' @ ext x ''.js''"
        "manifest_key (ext x ''.js'') = ext x ''.js''"
        "manifest_value base (base @ ''/'' @ ext x ''.js'') = ext x ''.js''"
      by blast
    have "\<not> style_input (ext x ''.js'')" "\<not> script_input (ext x ''.js'')"
      unfolding k by (rule js_is_no_input)+
    with r show "ext x ''.js'' = take (length x - 3) x @ ''.js''
         \<and> extname (ext x ''.js'') = ''.js''
         \<and> \<not> style_input (ext x ''.js'') \<and> \<not> script_input (ext x ''.js'')
         \<and> ext (base @ ''/'' @ x) ''.js'' = base @ ''/'' @ ext x ''.js''
         \<and> manifest_key (ext x ''.js'') = ext x ''.js''
         \<and> manifest_value base (base @ ''/'' @ ext x ''.js'') = ext x ''.js''"
      by (intro conjI)
  qed
  show "inj_on (\<lambda>file. manifest_key (ext file ''.js'')) (set files)"
  proof (rule inj_onI)
    fix x y assume x: "x \<in> set files" and y: "y \<in> set files"
      and eq: "manifest_key (ext x ''.js'') = manifest_key (ext y ''.js'')"
    from one [OF x] obtain sx where sx: "x = sx @ ''.ts''" "ext x ''.js'' = sx @ ''.js''"
      "manifest_key (ext x ''.js'') = ext x ''.js''" by blast
    from one [OF y] obtain sy where sy: "y = sy @ ''.ts''" "ext y ''.js'' = sy @ ''.js''"
      "manifest_key (ext y ''.js'') = ext y ''.js''" by blast
    from eq sx sy have "sx @ ''.js'' = sy @ ''.js''" by simp
    then have "sx = sy" by (simp only: append_same_eq)
    then show "x = y" using sx(1) sy(1) by simp
  qed
qed

text \<open>
  C3 (as amended). The key of a manifest entry is the input of a stage with its new
  extension, not the input itself. Take any batch of style inputs \<^verbatim>\<open>x.scss\<close> in whose
  paths under the output root the text \<^verbatim>\<open>.scss\<close> first occurs as the extension, and
  that have no backslash, and fold it into any manifest \<open>prev\<close>. For every file of the
  batch the key is \<^verbatim>\<open>x.css\<close>: its extension is \<^verbatim>\<open>.css\<close>, it matches neither input
  pattern, and the compiler is asked to write \<^verbatim>\<open>base/x.css\<close>, which the reducer would
  turn into \<^verbatim>\<open>x.css\<close>. When the compiler emitted, the manifest afterwards maps
  \<^verbatim>\<open>x.css\<close> to the first value it emitted, after the reducer's replacements; when it
  emitted nothing, \<^verbatim>\<open>x.css\<close> has what it had in \<open>prev\<close>. Every other key has what it
  had in \<open>prev\<close>. The same holds for a batch of script inputs \<^verbatim>\<open>bundle.ts\<close> or
  \<^verbatim>\<open>search.ts\<close> with \<^verbatim>\<open>.js\<close>. For every batch, folding adds no key but the
  (normalised) new-extension names of its files, and keeps the keys distinct.
\<close>

theorem stage_inputs_are_keyed_by_new_extension:
  "((\<forall>file\<in>set style_files. style_input file \<and> backslash \<notin> set base \<union> set file
        \<and> indexOf (base @ ''/'' @ file) ''.scss'' = Some (length base + 1 + (length file - 5)))
     \<longrightarrow> (\<forall>file\<in>set style_files.
            ext file ''.css'' = take (length file - 5) file @ ''.css''
          \<and> extname (ext file ''.css'') = ''.css''
          \<and> \<not> style_input (ext file ''.css'') \<and> \<not> script_input (ext file ''.css'')
          \<and> ext (base @ ''/'' @ file) ''.css'' = base @ ''/'' @ ext file ''.css''
          \<and> manifest_value base (base @ ''/'' @ ext file ''.css'') = ext file ''.css''
          \<and> map_of (manifest_reducer base prev (stylesheets base transformStyle style_files))
               (ext file ''.css'')
             = (case transformStyle (''src/'' @ file) (ext (base @ ''/'' @ file) ''.css'') of
                  [] \<Rightarrow> map_of prev (ext file ''.css'')
                | v # vs \<Rightarrow> Some (manifest_value base v)))
       \<and> (\<forall>key. key \<notin> (\<lambda>file. ext file ''.css'') ` set style_files \<longrightarrow>
            map_of (manifest_reducer base prev (stylesheets base transformStyle style_files)) key
            = map_of prev key))
   \<and> ((\<forall>file\<in>set script_files. script_input file \<and> backslash \<notin> set base \<union> set file
        \<and> indexOf (base @ ''/'' @ file) ''.ts'' = Some (length base + 1 + (length file - 3)))
     \<longrightarrow> (\<forall>file\<in>set script_files.
            ext file ''.js'' = take (length file - 3) file @ ''.js''
          \<and> extname (ext file ''.js'') = ''.js''
          \<and> \<not> style_input (ext file ''.js'') \<and> \<not> script_input (ext file ''.js'')
          \<and> ext (base @ ''/'' @ file) ''.js'' = base @ ''/'' @ ext file ''.js''
          \<and> manifest_value base (base @ ''/'' @ ext file ''.js'') = ext file ''.js''
          \<and> map_of (manifest_reducer base prev (javascripts base transformScript script_files))
               (ext file ''.js'')
             = (case transformScript (''src/'' @ file) (ext (base @ ''/'' @ file) ''.js'') of
                  [] \<Rightarrow> map_of prev (ext file ''.js'')
                | v # vs \<Rightarrow> Some (manifest_value base v)))
       \<and> (\<forall>key. key \<notin> (\<lambda>file. ext file ''.js'') ` set script_files \<longrightarrow>
            map_of (manifest_reducer base prev (javascripts base transformScript script_files)) key
            = map_of prev key))
   \<and> fst ` set (manifest_reducer base prev (stylesheets base transformStyle style_files))
        \<subseteq> fst ` set prev \<union> (\<lambda>file. manifest_key (ext file ''.css'')) ` set style_files
   \<and> fst ` set (manifest_reducer base prev (javascripts base transformScript script_files))
        \<subseteq> fst ` set prev \<union> (\<lambda>file. manifest_key (ext file ''.js'')) ` set script_files
   \<and> (distinct (map fst prev) \<longrightarrow>
        distinct (map fst (manifest_reducer base prev (stylesheets base transformStyle style_files)))
      \<and> distinct (map fst (manifest_reducer base prev (javascripts base transformScript script_files))))"
proof (intro conjI impI)
  let ?K = "\<lambda>file. ext file ''.css''"
  let ?T = "\<lambda>file. transformStyle (''src/'' @ file) (ext (base @ ''/'' @ file) ''.css'')"
  assume h: "\<forall>file\<in>set style_files. style_input file \<and> backslash \<notin> set base \<union> set file
        \<and> indexOf (base @ ''/'' @ file) ''.scss'' = Some (length base + 1 + (length file - 5))"
  note b = style_batch [OF h]
  have mk: "manifest_key (?K x) = ?K x" if "x \<in> set style_files" for x
    using b(1) that by blast
  have S: "stylesheets base transformStyle style_files = concat (map (\<lambda>file. zip_of (?K file) (?T file)) style_files)"
    by (simp add: stylesheets_def)
  note fold = stage_fold [OF b(2), of base prev ?T, folded S]
  show "\<forall>file\<in>set style_files.
            ext file ''.css'' = take (length file - 5) file @ ''.css''
          \<and> extname (ext file ''.css'') = ''.css''
          \<and> \<not> style_input (ext file ''.css'') \<and> \<not> script_input (ext file ''.css'')
          \<and> ext (base @ ''/'' @ file) ''.css'' = base @ ''/'' @ ext file ''.css''
          \<and> manifest_value base (base @ ''/'' @ ext file ''.css'') = ext file ''.css''
          \<and> map_of (manifest_reducer base prev (stylesheets base transformStyle style_files))
               (ext file ''.css'')
             = (case transformStyle (''src/'' @ file) (ext (base @ ''/'' @ file) ''.css'') of
                  [] \<Rightarrow> map_of prev (ext file ''.css'')
                | v # vs \<Rightarrow> Some (manifest_value base v))"
  proof
    fix x assume x: "x \<in> set style_files"
    have "map_of (manifest_reducer base prev (stylesheets base transformStyle style_files))
               (manifest_key (?K x))
          = (case ?T x of [] \<Rightarrow> map_of prev (manifest_key (?K x))
             | v # vs \<Rightarrow> Some (manifest_value base v))"
      using fold x by blast
    then have "map_of (manifest_reducer base prev (stylesheets base transformStyle style_files)) (?K x)
          = (case ?T x of [] \<Rightarrow> map_of prev (?K x) | v # vs \<Rightarrow> Some (manifest_value base v))"
      by (simp only: mk [OF x])
    then show "ext x ''.css'' = take (length x - 5) x @ ''.css''
          \<and> extname (ext x ''.css'') = ''.css''
          \<and> \<not> style_input (ext x ''.css'') \<and> \<not> script_input (ext x ''.css'')
          \<and> ext (base @ ''/'' @ x) ''.css'' = base @ ''/'' @ ext x ''.css''
          \<and> manifest_value base (base @ ''/'' @ ext x ''.css'') = ext x ''.css''
          \<and> map_of (manifest_reducer base prev (stylesheets base transformStyle style_files))
               (ext x ''.css'')
             = (case transformStyle (''src/'' @ x) (ext (base @ ''/'' @ x) ''.css'') of
                  [] \<Rightarrow> map_of prev (ext x ''.css'')
                | v # vs \<Rightarrow> Some (manifest_value base v))"
      using b(1) x by blast
  qed
  show "\<forall>key. key \<notin> ?K ` set style_files \<longrightarrow>
            map_of (manifest_reducer base prev (stylesheets base transformStyle style_files)) key
            = map_of prev key"
  proof (intro allI impI)
    fix key assume "key \<notin> ?K ` set style_files"
    then have "key \<notin> (\<lambda>file. manifest_key (?K file)) ` set style_files"
      using mk by force
    then show "map_of (manifest_reducer base prev (stylesheets base transformStyle style_files)) key
            = map_of prev key"
      using fold by blast
  qed
next
  let ?K = "\<lambda>file. ext file ''.js''"
  let ?T = "\<lambda>file. transformScript (''src/'' @ file) (ext (base @ ''/'' @ file) ''.js'')"
  assume h: "\<forall>file\<in>set script_files. script_input file \<and> backslash \<notin> set base \<union> set file
        \<and> indexOf (base @ ''/'' @ file) ''.ts'' = Some (length base + 1 + (length file - 3))"
  note b = script_batch [OF h]
  have mk: "manifest_key (?K x) = ?K x" if "x \<in> set script_files" for x
    using b(1) that by blast
  have S: "javascripts base transformScript script_files = concat (map (\<lambda>file. zip_of (?K file) (?T file)) script_files)"
    by (simp add: javascripts_def)
  note fold = stage_fold [OF b(2), of base prev ?T, folded S]
  show "\<forall>file\<in>set script_files.
            ext file ''.js'' = take (length file - 3) file @ ''.js''
          \<and> extname (ext file ''.js'') = ''.js''
          \<and> \<not> style_input (ext file ''.js'') \<and> \<not> script_input (ext file ''.js'')
          \<and> ext (base @ ''/'' @ file) ''.js'' = base @ ''/'' @ ext file ''.js''
          \<and> manifest_value base (base @ ''/'' @ ext file ''.js'') = ext file ''.js''
          \<and> map_of (manifest_reducer base prev (javascripts base transformScript script_files))
               (ext file ''.js'')
             = (case transformScript (''src/'' @ file) (ext (base @ ''/'' @ file) ''.js'') of
                  [] \<Rightarrow> map_of prev (ext file ''.js'')
                | v # vs \<Rightarrow> Some (manifest_value base v))"
  proof
    fix x assume x: "x \<in> set script_files"
    have "map_of (manifest_reducer base prev (javascripts base transformScript script_files))
               (manifest_key (?K x))
          = (case ?T x of [] \<Rightarrow> map_of prev (manifest_key (?K x))
             | v # vs \<Rightarrow> Some (manifest_value base v))"
      using fold x by blast
    then have "map_of (manifest_reducer base prev (javascripts base transformScript script_files)) (?K x)
          = (case ?T x of [] \<Rightarrow> map_of prev (?K x) | v # vs \<Rightarrow> Some (manifest_value base v))"
      by (simp only: mk [OF x])
    then show "ext x ''.js'' = take (length x - 3) x @ ''.js''
          \<and> extname (ext x ''.js'') = ''.js''
          \<and> \<not> style_input (ext x ''.js'') \<and> \<not> script_input (ext x ''.js'')
          \<and> ext (base @ ''/'' @ x) ''.js'' = base @ ''/'' @ ext x ''.js''
          \<and> manifest_value base (base @ ''/'' @ ext x ''.js'') = ext x ''.js''
          \<and> map_of (manifest_reducer base prev (javascripts base transformScript script_files))
               (ext x ''.js'')
             = (case transformScript (''src/'' @ x) (ext (base @ ''/'' @ x) ''.js'') of
                  [] \<Rightarrow> map_of prev (ext x ''.js'')
                | v # vs \<Rightarrow> Some (manifest_value base v))"
      using b(1) x by blast
  qed
  show "\<forall>key. key \<notin> ?K ` set script_files \<longrightarrow>
            map_of (manifest_reducer base prev (javascripts base transformScript script_files)) key
            = map_of prev key"
  proof (intro allI impI)
    fix key assume "key \<notin> ?K ` set script_files"
    then have "key \<notin> (\<lambda>file. manifest_key (?K file)) ` set script_files"
      using mk by force
    then show "map_of (manifest_reducer base prev (javascripts base transformScript script_files)) key
            = map_of prev key"
      using fold by blast
  qed
next
  show "fst ` set (manifest_reducer base prev (stylesheets base transformStyle style_files))
        \<subseteq> fst ` set prev \<union> (\<lambda>file. manifest_key (ext file ''.css'')) ` set style_files"
    using stylesheets_keys [of base transformStyle style_files]
    by (auto simp: manifest_reducer_keys)
  show "fst ` set (manifest_reducer base prev (javascripts base transformScript script_files))
        \<subseteq> fst ` set prev \<union> (\<lambda>file. manifest_key (ext file ''.js'')) ` set script_files"
    using javascripts_keys [of base transformScript script_files]
    by (auto simp: manifest_reducer_keys)
next
  assume "distinct (map fst prev)"
  then show "distinct (map fst (manifest_reducer base prev (stylesheets base transformStyle style_files)))"
    "distinct (map fst (manifest_reducer base prev (javascripts base transformScript script_files)))"
    by (rule distinct_manifest_reducer)+
qed

theorem stage_inputs_are_keyed_by_new_extension_witness:
  "list_all (\<lambda>file. style_input file \<and> backslash \<notin> set ''dist'' \<union> set file
       \<and> indexOf (''dist'' @ ''/'' @ file) ''.scss'' = Some (length ''dist'' + 1 + (length file - 5)))
     [''assets/stylesheets/main.scss'', ''assets/stylesheets/palette.scss'']
   \<and> list_all (\<lambda>file. script_input file \<and> backslash \<notin> set ''dist'' \<union> set file
       \<and> indexOf (''dist'' @ ''/'' @ file) ''.ts'' = Some (length ''dist'' + 1 + (length file - 3)))
     [''assets/javascripts/bundle.ts'', ''assets/javascripts/workers/search.ts'']
   \<and> map_of (manifest_reducer ''dist''
                [(''assets/stylesheets/main.css'', ''assets/stylesheets/main.0a1b.min.css''),
                 (''assets/javascripts/bundle.js'', ''assets/javascripts/bundle.4f1c.min.js'')]
                (stylesheets ''dist'' (\<lambda>from_path to_path. [to_path])
                   [''assets/stylesheets/main.scss'', ''assets/stylesheets/palette.scss'']))
        ''assets/stylesheets/palette.css''
      = Some ''assets/stylesheets/palette.css''
   \<and> map_of (manifest_reducer ''dist''
                [(''assets/stylesheets/main.css'', ''assets/stylesheets/main.0a1b.min.css''),
                 (''assets/javascripts/bundle.js'', ''assets/javascripts/bundle.4f1c.min.js'')]
                (javascripts ''dist'' (\<lambda>from_path to_path. [to_path])
                   [''assets/javascripts/bundle.ts'', ''assets/javascripts/workers/search.ts'']))
        ''assets/javascripts/workers/search.js''
      = Some ''assets/javascripts/workers/search.js''
   \<and> manifest_reducer ''dist''
        [(''assets/stylesheets/main.css'', ''assets/stylesheets/main.0a1b.min.css''),
         (''assets/javascripts/bundle.js'', ''assets/javascripts/bundle.4f1c.min.js'')]
        (stylesheets ''dist'' (\<lambda>from_path to_path. [to_path])
           [''assets/stylesheets/main.scss'', ''assets/stylesheets/palette.scss''])
      = [(''assets/stylesheets/main.css'', ''assets/stylesheets/main.css''),
         (''assets/javascripts/bundle.js'', ''assets/javascripts/bundle.4f1c.min.js''),
         (''assets/stylesheets/palette.css'', ''assets/stylesheets/palette.css'')]"
proof -
  let ?t = "\<lambda>(from_path :: string) (to_path :: string). [to_path]"
  let ?styles = "[''assets/stylesheets/main.scss'', ''assets/stylesheets/palette.scss'']"
  let ?scripts = "[''assets/javascripts/bundle.ts'', ''assets/javascripts/workers/search.ts'']"
  let ?prev = "[(''assets/stylesheets/main.css'', ''assets/stylesheets/main.0a1b.min.css''),
                (''assets/javascripts/bundle.js'', ''assets/javascripts/bundle.4f1c.min.js'')]"
  have h1: "list_all (\<lambda>file. style_input file \<and> backslash \<notin> set ''dist'' \<union> set file
       \<and> indexOf (''dist'' @ ''/'' @ file) ''.scss'' = Some (length ''dist'' + 1 + (length file - 5)))
     ?styles"
    by code_simp
  have h2: "list_all (\<lambda>file. script_input file \<and> backslash \<notin> set ''dist'' \<union> set file
       \<and> indexOf (''dist'' @ ''/'' @ file) ''.ts'' = Some (length ''dist'' + 1 + (length file - 3)))
     ?scripts"
    by code_simp
  note th = stage_inputs_are_keyed_by_new_extension [of ?styles "''dist''" ?prev ?t ?scripts ?t]
  note s = th [THEN conjunct1, THEN mp, OF h1 [unfolded list_all_iff], THEN conjunct1]
  note j = th [THEN conjunct2, THEN conjunct1, THEN mp, OF h2 [unfolded list_all_iff],
                THEN conjunct1]
  have k1: "ext ''assets/stylesheets/palette.scss'' ''.css'' = ''assets/stylesheets/palette.css''"
    by code_simp
  have v1: "manifest_value ''dist'' (ext (''dist'' @ ''/'' @ ''assets/stylesheets/palette.scss'') ''.css'')
            = ''assets/stylesheets/palette.css''"
    by code_simp
  have k2: "ext ''assets/javascripts/workers/search.ts'' ''.js''
            = ''assets/javascripts/workers/search.js''"
    by code_simp
  have v2: "manifest_value ''dist''
              (ext (''dist'' @ ''/'' @ ''assets/javascripts/workers/search.ts'') ''.js'')
            = ''assets/javascripts/workers/search.js''"
    by code_simp
  have "''assets/stylesheets/palette.scss'' \<in> set ?styles" by simp
  from s [THEN bspec, OF this]
  have e1: "map_of (manifest_reducer ''dist'' ?prev (stylesheets ''dist'' ?t ?styles))
              (ext ''assets/stylesheets/palette.scss'' ''.css'')
            = (case [ext (''dist'' @ ''/'' @ ''assets/stylesheets/palette.scss'') ''.css''] of
                 [] \<Rightarrow> map_of ?prev (ext ''assets/stylesheets/palette.scss'' ''.css'')
               | v # vs \<Rightarrow> Some (manifest_value ''dist'' v))"
    by (elim conjE)
  have "''assets/javascripts/workers/search.ts'' \<in> set ?scripts" by simp
  from j [THEN bspec, OF this]
  have e2: "map_of (manifest_reducer ''dist'' ?prev (javascripts ''dist'' ?t ?scripts))
              (ext ''assets/javascripts/workers/search.ts'' ''.js'')
            = (case [ext (''dist'' @ ''/'' @ ''assets/javascripts/workers/search.ts'') ''.js''] of
                 [] \<Rightarrow> map_of ?prev (ext ''assets/javascripts/workers/search.ts'' ''.js'')
               | v # vs \<Rightarrow> Some (manifest_value ''dist'' v))"
    by (elim conjE)
  have all: "manifest_reducer ''dist'' ?prev (stylesheets ''dist'' ?t ?styles)
      = [(''assets/stylesheets/main.css'', ''assets/stylesheets/main.css''),
         (''assets/javascripts/bundle.js'', ''assets/javascripts/bundle.4f1c.min.js''),
         (''assets/stylesheets/palette.css'', ''assets/stylesheets/palette.css'')]"
    by code_simp
  show ?thesis
    using h1 h2 e1 [unfolded list.case k1 v1] e2 [unfolded list.case k2 v2] all
    by (intro conjI)
qed

text \<open>
  C3 as stated fails. Take a source tree with the three files
  \<^verbatim>\<open>assets/stylesheets/main.scss\<close>, \<^verbatim>\<open>assets/stylesheets/main.css\<close> and
  \<^verbatim>\<open>assets/javascripts/bundle.ts\<close>, and compilers that report the path they were asked
  to write. The style stage finds \<^verbatim>\<open>main.scss\<close>, the script stage \<^verbatim>\<open>bundle.ts\<close>.
  After both batches are folded the manifest has the key
  \<^verbatim>\<open>assets/stylesheets/main.css\<close>: a file of the source tree that matches neither
  pattern appears as a manifest key.
\<close>

theorem source_file_outside_patterns_is_manifest_key:
  "filter style_input
     [''assets/stylesheets/main.scss'', ''assets/stylesheets/main.css'',
      ''assets/javascripts/bundle.ts'']
   = [''assets/stylesheets/main.scss'']
   \<and> filter script_input
     [''assets/stylesheets/main.scss'', ''assets/stylesheets/main.css'',
      ''assets/javascripts/bundle.ts'']
   = [''assets/javascripts/bundle.ts'']
   \<and> manifest_reducer ''dist''
       (manifest_reducer ''dist'' []
          (stylesheets ''dist'' (\<lambda>from_path to_path. [to_path])
             (filter style_input
                [''assets/stylesheets/main.scss'', ''assets/stylesheets/main.css'',
                 ''assets/javascripts/bundle.ts''])))
       (javascripts ''dist'' (\<lambda>from_path to_path. [to_path])
          (filter script_input
             [''assets/stylesheets/main.scss'', ''assets/stylesheets/main.css'',
              ''assets/javascripts/bundle.ts'']))
   = [(''assets/stylesheets/main.css'', ''assets/stylesheets/main.css''),
      (''assets/javascripts/bundle.js'', ''assets/javascripts/bundle.js'')]
   \<and> ''assets/stylesheets/main.css''
       \<in> set [''assets/stylesheets/main.scss'', ''assets/stylesheets/main.css'',
              ''assets/javascripts/bundle.ts'']
   \<and> \<not> style_input ''assets/stylesheets/main.css''
   \<and> \<not> script_input ''assets/stylesheets/main.css''"
  by code_simp

subsection \<open>The state machine keeps its state and its trace coherent\<close>

lemma settled_follows_ok [simp]: "settled l \<Longrightarrow> follows_ok x l"
  by (cases "(x, l)" rule: follows_ok.cases) simp_all

lemma coherent_subscribe:
  assumes "coherent c st"
    and "dirty_flag c \<or> (\<forall>p\<in>set (assets (output_root c)). CopyEnd p \<in> set (trace st))"
    and "copies st = []"
  shows "coherent c (subscribe_templates st)"
  using assms unfolding coherent_def mirrors_def copy_phase_def subscribe_templates_def
  by (auto split: option.splits)

lemma coherent_start_copies:
  assumes "coherent c st" and "\<not> dirty_flag c"
    and "\<not> subscribed st"
    and "set (assets (output_root c)) \<subseteq> set ps \<union> {p. CopyEnd p \<in> set (trace st)}"
  shows "coherent c (start_copies ps st)"
proof (cases ps)
  case Nil
  have "coherent c (st\<lparr>copies := []\<rparr>)"
    using assms Nil unfolding coherent_def mirrors_def copy_phase_def by (auto split: option.splits)
  moreover have "\<forall>p\<in>set (assets (output_root c)). CopyEnd p \<in> set (trace (st\<lparr>copies := []\<rparr>))"
    using assms(4) Nil by auto
  ultimately show ?thesis
    using Nil by (simp add: coherent_subscribe)
next
  case (Cons p ps')
  then show ?thesis
    using assms unfolding coherent_def mirrors_def copy_phase_def by (auto split: option.splits)
qed

lemma coherent_init: "coherent c (init c)"
proof -
  let ?st0 = "\<lparr>copies = [], subscribed = False, generation = 0, in_flight = (\<lambda>s. None),
               heap = (\<lambda>a. []), acc = 0, active = None, passes = 0, trace = []\<rparr>"
  show ?thesis
  proof (cases "dirty_flag c")
    case True
    have "coherent c ?st0"
      using True by (simp add: coherent_def mirrors_def copy_phase_def manifest_reducer_Nil)
    then have "coherent c (subscribe_templates ?st0)"
      using True by (intro coherent_subscribe) simp_all
    then show ?thesis using True by (simp add: init_def)
  next
    case False
    have "coherent c (?st0\<lparr>copies := assets (output_root c)\<rparr>)"
      using False by (simp add: coherent_def mirrors_def copy_phase_def manifest_reducer_Nil)
    then have "coherent c (start_copies (assets (output_root c)) (?st0\<lparr>copies := assets (output_root c)\<rparr>))"
      using False by (intro coherent_start_copies) simp_all
    moreover have "start_copies (assets (output_root c)) (?st0\<lparr>copies := assets (output_root c)\<rparr>)
          = start_copies (assets (output_root c)) ?st0"
      by (cases "assets (output_root c)") (simp_all add: subscribe_templates_def)
    ultimately show ?thesis using False by (simp add: init_def)
  qed
qed

lemma coherent_trace_CopyEnd:
  "coherent c st \<Longrightarrow> coherent c (st\<lparr>trace := CopyEnd p # trace st\<rparr>)"
  unfolding coherent_def mirrors_def copy_phase_def by (auto split: option.splits)

lemma coherent_CopyDone: "coherent c st \<Longrightarrow> coherent c (step c st CopyDone)"
proof (cases "copies st")
  case Nil
  assume "coherent c st"
  with Nil show ?thesis by simp
next
  case (Cons p ps)
  assume coh: "coherent c st"
  let ?st = "st\<lparr>trace := CopyEnd p # trace st\<rparr>"
  have nd: "\<not> dirty_flag c" and ns: "\<not> subscribed st"
    and sub: "set (assets (output_root c)) \<subseteq> set (copies st) \<union> {p. CopyEnd p \<in> set (trace st)}"
    using coh Cons unfolding coherent_def copy_phase_def by auto
  have "coherent c ?st" using coh by (rule coherent_trace_CopyEnd)
  moreover have "set (assets (output_root c)) \<subseteq> set ps \<union> {q. CopyEnd q \<in> set (trace ?st)}"
    using sub Cons by auto
  ultimately have "coherent c (start_copies ps ?st)"
    using nd ns by (intro coherent_start_copies) simp_all
  then show ?thesis using Cons by simp
qed

lemma coherent_Change: "coherent c st \<Longrightarrow> coherent c (step c st (Change s))"
  unfolding coherent_def mirrors_def copy_phase_def
  by (auto split: option.splits)

lemma folded_cancelled [simp]:
  "folded ((case a of None \<Rightarrow> [] | Some p \<Rightarrow> [PassCancel (pass_id p)]) @ l) = folded l"
  by (cases a) simp_all

lemma last_emit_cancelled [simp]:
  "last_emit ((case a of None \<Rightarrow> [] | Some p \<Rightarrow> [PassCancel (pass_id p)]) @ l) = last_emit l"
  by (cases a) simp_all

lemma write_ids_cancelled [simp]:
  "write_ids ((case a of None \<Rightarrow> [] | Some p \<Rightarrow> [PassCancel (pass_id p)]) @ l) = write_ids l"
  by (cases a) simp_all

lemma read_by_cancelled [simp]:
  "read_by n ((case a of None \<Rightarrow> [] | Some p \<Rightarrow> [PassCancel (pass_id p)]) @ l) = read_by n l"
  by (cases a) simp_all

lemma current_pass_cancelled:
  "current_pass ((case a of None \<Rightarrow> [] | Some p \<Rightarrow> [PassCancel (pass_id p)]) @ Emit b m # l)
   = (case a of None \<Rightarrow> current_pass l | Some p \<Rightarrow> None)"
  by (cases a) simp_all

lemma read_by_write_ids: "m \<in> set (read_by n l) \<Longrightarrow> n \<in> set (write_ids l)"
  by (induction n l rule: read_by.induct) (auto split: if_splits)

lemma coherent_BatchDone: "coherent c st \<Longrightarrow> coherent c (step c st (BatchDone s pairs))"
proof (cases "in_flight st s")
  case None
  assume "coherent c st"
  with None show ?thesis by simp
next
  case (Some g)
  assume coh: "coherent c st"
  let ?m = "manifest_reducer (output_root c) (heap st 0) pairs"
  let ?n = "Suc (passes st)"
  let ?cancel = "case active st of None \<Rightarrow> [] | Some p \<Rightarrow> [PassCancel (pass_id p)]"
  let ?old = "Emit 0 ?m # Fold s g pairs # trace st"
  let ?st' = "st\<lparr>in_flight := (in_flight st)(s := None), heap := (heap st)(0 := ?m), acc := 0,
               active := Some \<lparr>pass_id = ?n, manifest_of = 0\<rparr>, passes := ?n,
               trace := PassStart ?n 0 ?m # ?cancel @ ?old\<rparr>"
  have acc0: "acc st = 0" and hp: "heap st 0 = manifest_reducer (output_root c) [] (folded (trace st))"
    and cur: "map_option pass_id (active st) = current_pass (trace st)"
    and ids: "\<forall>k\<in>set (write_ids (trace st)). k \<le> passes st"
    and wf: "wf_trace c (trace st)" and settled: "settled (trace st)"
    using coh unfolding coherent_def mirrors_def by auto
  have stp: "step c st (BatchDone s pairs) = ?st'"
    using Some acc0 by (simp add: scan_step_def)
  have m: "?m = manifest_reducer (output_root c) [] (folded (trace st) @ pairs)"
    by (simp add: manifest_reducer_append hp)
  have wf_old: "wf_trace c ?old"
    using wf m settled by simp
  have wf_cancel: "wf_trace c (?cancel @ ?old)"
    using wf_old cur by (cases "active st") auto
  have none: "current_pass (?cancel @ ?old) = None"
    using cur by (cases "active st") auto
  have "follows_ok (PassStart ?n 0 ?m) (?cancel @ ?old)"
    by (cases "active st") simp_all
  then have wf': "wf_trace c (trace ?st')"
    using wf_cancel m none by simp
  have fresh: "\<forall>m'\<in>set (read_by ?n (trace st)). m' = ?m"
  proof
    fix m' assume "m' \<in> set (read_by ?n (trace st))"
    then have "?n \<in> set (write_ids (trace st))" by (rule read_by_write_ids)
    with ids show "m' = ?m" by auto
  qed
  have mir: "mirrors c ?st'"
    unfolding mirrors_def using m ids fresh by auto
  have cp: "copy_phase c ?st'"
    using coh unfolding coherent_def copy_phase_def by auto
  show ?thesis
    unfolding stp coherent_def by (intro conjI wf' mir cp)
qed

lemma coherent_Template: "coherent c st \<Longrightarrow> coherent c (step c st (Template file data))"
  unfolding coherent_def mirrors_def copy_phase_def
  by (auto split: option.splits)

lemma coherent_PassDone: "coherent c st \<Longrightarrow> coherent c (step c st PassDone)"
  unfolding coherent_def mirrors_def copy_phase_def
  by (auto split: option.splits)

lemma coherent_step: "coherent c st \<Longrightarrow> coherent c (step c st e)"
  by (cases e)
    (simp_all only: coherent_CopyDone coherent_Change coherent_BatchDone coherent_Template
       coherent_PassDone)

lemma run_snoc: "run c (es @ [e]) = step c (run c es) e"
  by (simp add: run_def)

lemma coherent_run: "coherent c (run c es)"
proof (induction es rule: rev_induct)
  case Nil
  show ?case by (simp add: run_def coherent_init)
next
  case (snoc e es)
  then show ?case by (simp only: run_snoc coherent_step)
qed

lemma wf_trace_entry: "wf_trace c l \<Longrightarrow> l = l1 @ x # l2 \<Longrightarrow> entry_ok c x l2"
  by (induction l1 arbitrary: l) auto

lemma run_entry_ok: "trace (run c es) = l1 @ x # l2 \<Longrightarrow> entry_ok c x l2"
  using coherent_run [of c es] wf_trace_entry unfolding coherent_def by blast


subsection \<open>The copy phase comes first\<close>

lemma copies_after_CopyDone:
  assumes "\<not> dirty_flag c" and "k \<le> length (assets (output_root c))"
  shows "copies (run c (replicate k CopyDone)) = drop k (assets (output_root c))
         \<and> (subscribed (run c (replicate k CopyDone)) \<longleftrightarrow> k = length (assets (output_root c)))"
  using assms(2)
proof (induction k)
  case 0
  have "assets (output_root c) \<noteq> []" by (simp add: assets_def)
  then obtain p ps where "assets (output_root c) = p # ps" by (cases "assets (output_root c)") auto
  then show ?case using assms(1) by (simp add: run_def init_def)
next
  case (Suc k)
  let ?st = "run c (replicate k CopyDone)"
  have "replicate (Suc k) CopyDone = replicate k CopyDone @ [CopyDone]"
    by (simp add: replicate_append_same)
  then have r: "run c (replicate (Suc k) CopyDone) = step c ?st CopyDone"
    by (simp only: run_snoc)
  have IH: "copies ?st = drop k (assets (output_root c))" "\<not> subscribed ?st"
    using Suc by auto
  obtain p ps where d: "drop k (assets (output_root c)) = p # ps"
    using Suc.prems by (cases "drop k (assets (output_root c))") auto
  then have ps: "ps = drop (Suc k) (assets (output_root c))"
    by (metis drop_Suc tl_drop list.sel(3))
  show ?case
  proof (cases ps)
    case Nil
    with ps have "length (assets (output_root c)) \<le> Suc k" by simp
    with Suc.prems have "Suc k = length (assets (output_root c))" by simp
    then show ?thesis
      unfolding r using IH d Nil ps by (simp add: subscribe_templates_def)
  next
    case (Cons q qs)
    with ps have "Suc k < length (assets (output_root c))"
      by (metis drop_eq_Nil2 list.distinct(1) not_le)
    then show ?thesis
      unfolding r using IH d Cons ps by simp
  qed
qed

text \<open>
  C6. Without \<^verbatim>\<open>--dirty\<close>, whenever a transform stage starts in a run, every copy pass of
  \<^verbatim>\<open>assets$\<close> has ended before; nothing is subscribed to the stages while fewer than all
  the copy passes have completed, and the stages are subscribed once the last one has.
  With \<^verbatim>\<open>--dirty\<close> the stages start with the build and no copy pass ever starts.
\<close>

theorem transforms_start_after_asset_copies:
  "(\<not> dirty_flag c \<longrightarrow>
      (\<forall>l1 l2 s g. trace (run c es) = l1 @ StageStart s g # l2
         \<longrightarrow> (\<forall>p\<in>set (assets (output_root c)). CopyEnd p \<in> set l2))
      \<and> (\<forall>k<length (assets (output_root c)). \<not> subscribed (run c (replicate k CopyDone)))
      \<and> subscribed (run c (replicate (length (assets (output_root c))) CopyDone)))
   \<and> (dirty_flag c \<longrightarrow>
        trace (init c) = [StageStart Script 1, StageStart Style 1]
        \<and> (\<forall>p. CopyStart p \<notin> set (trace (run c es))))"
proof (intro conjI impI allI ballI)
  fix l1 l2 s g p
  assume "\<not> dirty_flag c" "trace (run c es) = l1 @ StageStart s g # l2"
    "p \<in> set (assets (output_root c))"
  then show "CopyEnd p \<in> set l2"
    using run_entry_ok [of c es l1 "StageStart s g" l2] by simp
next
  fix k
  assume "\<not> dirty_flag c" "k < length (assets (output_root c))"
  then show "\<not> subscribed (run c (replicate k CopyDone))"
    using copies_after_CopyDone [of c k] by simp
next
  assume "\<not> dirty_flag c"
  then show "subscribed (run c (replicate (length (assets (output_root c))) CopyDone))"
    using copies_after_CopyDone [of c "length (assets (output_root c))"] by simp
next
  assume "dirty_flag c"
  then show "trace (init c) = [StageStart Script 1, StageStart Style 1]"
    by (simp add: init_def subscribe_templates_def)
next
  fix p
  assume d: "dirty_flag c"
  show "CopyStart p \<notin> set (trace (run c es))"
  proof
    assume "CopyStart p \<in> set (trace (run c es))"
    then obtain l1 l2 where "trace (run c es) = l1 @ CopyStart p # l2"
      by (auto dest: split_list)
    from run_entry_ok [OF this] d show False by simp
  qed
qed

theorem transforms_start_after_asset_copies_witness:
  "list_all
     (\<lambda>p. CopyEnd p \<in> set (drop 2 (trace (run
        \<lparr>watch_flag = False, dirty_flag = False, optimize_flag = False, output_root = ''dist'',
          minifier = (\<lambda>html. html), regexp_engine = (\<lambda>key. None)\<rparr> (replicate 12 CopyDone)))))
     (assets ''dist'')
   \<and> trace (init \<lparr>watch_flag = False, dirty_flag = True, optimize_flag = False,
                   output_root = ''dist'', minifier = (\<lambda>html. html), regexp_engine = (\<lambda>key. None)\<rparr>)
     = [StageStart Script 1, StageStart Style 1]"
proof
  let ?c = "\<lparr>watch_flag = False, dirty_flag = False, optimize_flag = False, output_root = ''dist'',
             minifier = (\<lambda>html. html), regexp_engine = (\<lambda>key. None)\<rparr>"
  let ?d = "\<lparr>watch_flag = False, dirty_flag = True, optimize_flag = False, output_root = ''dist'',
             minifier = (\<lambda>html. html), regexp_engine = (\<lambda>key. None)\<rparr>"
  let ?es = "replicate 12 CopyDone"
  have t: "trace (run ?c ?es)
           = [StageStart Script 1] @ StageStart Style 1 # drop 2 (trace (run ?c ?es))"
    by code_simp
  have nd: "\<not> dirty_flag ?c" by simp
  from transforms_start_after_asset_copies [of ?c ?es] nd
  have "\<forall>l1 l2 s g. trace (run ?c ?es) = l1 @ StageStart s g # l2
          \<longrightarrow> (\<forall>p\<in>set (assets (output_root ?c)). CopyEnd p \<in> set l2)"
    by blast
  with t have "\<forall>p\<in>set (assets (output_root ?c)). CopyEnd p \<in> set (drop 2 (trace (run ?c ?es)))"
    by blast
  then show "list_all (\<lambda>p. CopyEnd p \<in> set (drop 2 (trace (run ?c ?es)))) (assets ''dist'')"
    by (simp add: list_all_iff)
  show "trace (init ?d) = [StageStart Script 1, StageStart Style 1]"
    using transforms_start_after_asset_copies [of ?d "[]"] by simp
qed

subsection \<open>The manifest and the template passes in a run\<close>


lemma wf_trace_suffix: "wf_trace c (l1 @ l2) \<Longrightarrow> wf_trace c l2"
  by (induction l1) auto

lemma run_wf: "wf_trace c (trace (run c es))"
  using coherent_run [of c es] by (simp add: coherent_def)

lemma run_mirrors: "mirrors c (run c es)"
  using coherent_run [of c es] by (simp add: coherent_def)

lemma last_emit_split:
  "last_emit l = Some m \<Longrightarrow> \<exists>l3 l4 a. l = l3 @ Emit a m # l4"
proof (induction l rule: last_emit.induct)
  case 1
  then show ?case by simp
next
  case (2 a m' l)
  then have "Emit a m' # l = [] @ Emit a m # l" by simp
  then show ?case by blast
qed (auto intro: Cons_eq_appendI)

lemma acc_init: "acc (init c) = 0"
  using coherent_init [of c] by (simp add: coherent_def mirrors_def)



text \<open>
  C1 as stated fails. In watch mode, generation 1 folds the style batch (two files) and
  the script batch; a change of a style file begins generation 2, whose only batch has the
  one pair for \<^verbatim>\<open>main.css\<close>. The manifest handed to pass 3 in generation 2 still holds
  the entries for \<^verbatim>\<open>extra.css\<close> and \<^verbatim>\<open>bundle.js\<close> that were folded in generation 1,
  and all three passes were handed the \<^verbatim>\<open>Map\<close> at address 0.
\<close>

theorem manifest_keeps_entries_of_earlier_generation:
  "trace (run \<lparr>watch_flag = True, dirty_flag = True, optimize_flag = True, output_root = ''dist'',
               minifier = (\<lambda>html. html), regexp_engine = (\<lambda>key. None)\<rparr>
          [BatchDone Style [(''main.css'', ''dist/main.css''), (''extra.css'', ''dist/extra.css'')],
           BatchDone Script [(''bundle.js'', ''dist/bundle.js'')],
           Change Style,
           BatchDone Style [(''main.css'', ''dist/main.1f2e.css'')]])
   = [PassStart 3 0 [(''main.css'', ''main.1f2e.css''), (''extra.css'', ''extra.css''),
                     (''bundle.js'', ''bundle.js'')],
      PassCancel 2,
      Emit 0 [(''main.css'', ''main.1f2e.css''), (''extra.css'', ''extra.css''),
              (''bundle.js'', ''bundle.js'')],
      Fold Style 2 [(''main.css'', ''dist/main.1f2e.css'')],
      StageStart Style 2,
      PassStart 2 0 [(''main.css'', ''main.css''), (''extra.css'', ''extra.css''),
                     (''bundle.js'', ''bundle.js'')],
      PassCancel 1,
      Emit 0 [(''main.css'', ''main.css''), (''extra.css'', ''extra.css''),
              (''bundle.js'', ''bundle.js'')],
      Fold Script 1 [(''bundle.js'', ''dist/bundle.js'')],
      PassStart 1 0 [(''main.css'', ''main.css''), (''extra.css'', ''extra.css'')],
      Emit 0 [(''main.css'', ''main.css''), (''extra.css'', ''extra.css'')],
      Fold Style 1 [(''main.css'', ''dist/main.css''), (''extra.css'', ''dist/extra.css'')],
      StageStart Script 1,
      StageStart Style 1]"
  by code_simp

text \<open>
  C1 (as amended). In every run, the manifest handed to a template pass is the fold of
  all the batches folded until then, of both stages and of every generation, into the one
  \<^verbatim>\<open>Map\<close> that \<^verbatim>\<open>scan\<close> was seeded with: an entry stays until a later pair with the same
  key replaces its value. Every pass receives that same object, which is the accumulator
  of \<^verbatim>\<open>scan\<close> throughout.
\<close>

theorem manifest_accumulates_over_generations:
  "(\<forall>l1 l2 n a m. trace (run c es) = l1 @ PassStart n a m # l2
      \<longrightarrow> a = acc (init c) \<and> m = manifest_reducer (output_root c) [] (folded l2))
   \<and> acc (run c es) = acc (init c)
   \<and> heap (run c es) (acc (init c))
       = manifest_reducer (output_root c) [] (folded (trace (run c es)))"
proof (intro conjI allI impI)
  fix l1 l2 n a m
  assume "trace (run c es) = l1 @ PassStart n a m # l2"
  from run_entry_ok [OF this]
  show "a = acc (init c)" and "m = manifest_reducer (output_root c) [] (folded l2)"
    by (simp_all add: acc_init)
next
  show "acc (run c es) = acc (init c)"
    using run_mirrors [of c es] by (simp add: mirrors_def acc_init)
  show "heap (run c es) (acc (init c))
       = manifest_reducer (output_root c) [] (folded (trace (run c es)))"
    using run_mirrors [of c es] by (simp add: mirrors_def acc_init)
qed

theorem manifest_accumulates_over_generations_witness:
  "0 = acc (init \<lparr>watch_flag = True, dirty_flag = True, optimize_flag = True,
                  output_root = ''dist'', minifier = (\<lambda>html. html), regexp_engine = (\<lambda>key. None)\<rparr>)
   \<and> [(''main.css'', ''main.1f2e.css''), (''extra.css'', ''extra.css''), (''bundle.js'', ''bundle.js'')]
     = manifest_reducer ''dist'' []
         ([(''main.css'', ''dist/main.css''), (''extra.css'', ''dist/extra.css'')]
          @ [(''bundle.js'', ''dist/bundle.js'')]
          @ [(''main.css'', ''dist/main.1f2e.css'')])"
proof -
  let ?c = "\<lparr>watch_flag = True, dirty_flag = True, optimize_flag = True, output_root = ''dist'',
             minifier = (\<lambda>html. html), regexp_engine = (\<lambda>key. None)\<rparr>"
  let ?es = "[BatchDone Style [(''main.css'', ''dist/main.css''), (''extra.css'', ''dist/extra.css'')],
              BatchDone Script [(''bundle.js'', ''dist/bundle.js'')],
              Change Style,
              BatchDone Style [(''main.css'', ''dist/main.1f2e.css'')]]"
  let ?m = "[(''main.css'', ''main.1f2e.css''), (''extra.css'', ''extra.css''),
             (''bundle.js'', ''bundle.js'')]"
  have t: "trace (run ?c ?es) = [] @ PassStart 3 0 ?m # tl (trace (run ?c ?es))"
    by code_simp
  have f: "folded (tl (trace (run ?c ?es)))
           = [(''main.css'', ''dist/main.css''), (''extra.css'', ''dist/extra.css'')]
             @ [(''bundle.js'', ''dist/bundle.js'')]
             @ [(''main.css'', ''dist/main.1f2e.css'')]"
    by code_simp
  from manifest_accumulates_over_generations [of ?c ?es] t
  have "0 = acc (init ?c) \<and> ?m = manifest_reducer (output_root ?c) [] (folded (tl (trace (run ?c ?es))))"
    by blast
  then show ?thesis
    unfolding f by simp
qed

text \<open>
  C2 as stated fails. When the style batch completes first, pass 1 starts on a manifest
  that holds the style entry only and transforms a template with it, while the script
  batch of the same generation is still in flight.
\<close>

theorem template_written_with_one_stage_folded:
  "trace (run \<lparr>watch_flag = False, dirty_flag = True, optimize_flag = True, output_root = ''dist'',
               minifier = (\<lambda>html. html), regexp_engine = (\<lambda>key. None)\<rparr>
          [BatchDone Style [(''main.css'', ''dist/main.1f2e.css'')],
           Template ''index.html'' ([dquote] @ ''bundle.js'' @ [dquote])])
   = [Write 1 ''index.html'' [(''main.css'', ''main.1f2e.css'')]
        (Some (banner @ [dquote] @ ''bundle.js'' @ [dquote])),
      PassStart 1 0 [(''main.css'', ''main.1f2e.css'')],
      Emit 0 [(''main.css'', ''main.1f2e.css'')],
      Fold Style 1 [(''main.css'', ''dist/main.1f2e.css'')],
      StageStart Script 1,
      StageStart Style 1]
   \<and> in_flight (run \<lparr>watch_flag = False, dirty_flag = True, optimize_flag = True,
                      output_root = ''dist'', minifier = (\<lambda>html. html), regexp_engine = (\<lambda>key. None)\<rparr>
          [BatchDone Style [(''main.css'', ''dist/main.1f2e.css'')],
           Template ''index.html'' ([dquote] @ ''bundle.js'' @ [dquote])]) Script = Some 1"
  by code_simp

text \<open>
  C2 (as amended). Whenever the batch of one stage completes, whether or not the other
  stage still has a batch in flight, a new template pass starts on the manifest with that
  batch folded in. Every call of the template transform reads a manifest that is the fold
  of all the batches folded before the call, each of them whole, and at least one batch
  has been folded before it.
\<close>

theorem pass_restarts_on_every_batch:
  "(\<forall>s g pairs. in_flight (run c es) s = Some g \<longrightarrow>
        active (step c (run c es) (BatchDone s pairs))
          = Some \<lparr>pass_id = Suc (passes (run c es)), manifest_of = acc (init c)\<rparr>
      \<and> heap (step c (run c es) (BatchDone s pairs)) (acc (init c))
          = manifest_reducer (output_root c) (heap (run c es) (acc (init c))) pairs)
   \<and> (\<forall>l1 l2 n f m out. trace (run c es) = l1 @ Write n f m out # l2 \<longrightarrow>
        m = manifest_reducer (output_root c) [] (folded l2)
        \<and> (\<exists>s g pairs. Fold s g pairs \<in> set l2))"
proof (intro conjI allI impI)
  fix s g pairs
  assume "in_flight (run c es) s = Some g"
  moreover have "acc (run c es) = 0"
    using run_mirrors [of c es] by (simp add: mirrors_def)
  ultimately show "active (step c (run c es) (BatchDone s pairs))
          = Some \<lparr>pass_id = Suc (passes (run c es)), manifest_of = acc (init c)\<rparr>"
    and "heap (step c (run c es) (BatchDone s pairs)) (acc (init c))
          = manifest_reducer (output_root c) (heap (run c es) (acc (init c))) pairs"
    by (simp_all add: scan_step_def acc_init)
next
  fix l1 l2 n f m out
  assume t: "trace (run c es) = l1 @ Write n f m out # l2"
  from run_entry_ok [OF t]
  show "m = manifest_reducer (output_root c) [] (folded l2)" by simp
  from run_entry_ok [OF t] have "last_emit l2 = Some m" by simp
  then obtain l3 l4 a where l2: "l2 = l3 @ Emit a m # l4"
    using last_emit_split by blast
  have "wf_trace c ((l1 @ [Write n f m out]) @ l2)"
    using run_wf [of c es] t by simp
  then have "wf_trace c l2" by (rule wf_trace_suffix)
  then have "entry_ok c (Emit a m) l4"
    using l2 by (rule wf_trace_entry)
  then obtain s g pairs l' where "l4 = Fold s g pairs # l'"
    by (auto split: list.splits action.splits)
  with l2 have "Fold s g pairs \<in> set l2" by simp
  then show "\<exists>s g pairs. Fold s g pairs \<in> set l2" by blast
qed

theorem pass_restarts_on_every_batch_witness:
  "in_flight (step \<lparr>watch_flag = False, dirty_flag = True, optimize_flag = True,
                    output_root = ''dist'', minifier = (\<lambda>html. html), regexp_engine = (\<lambda>key. None)\<rparr>
               (run \<lparr>watch_flag = False, dirty_flag = True, optimize_flag = True,
                     output_root = ''dist'', minifier = (\<lambda>html. html), regexp_engine = (\<lambda>key. None)\<rparr> [])
               (BatchDone Style [(''main.css'', ''dist/main.1f2e.css'')])) Script = Some 1
   \<and> active (step \<lparr>watch_flag = False, dirty_flag = True, optimize_flag = True,
                    output_root = ''dist'', minifier = (\<lambda>html. html), regexp_engine = (\<lambda>key. None)\<rparr>
               (run \<lparr>watch_flag = False, dirty_flag = True, optimize_flag = True,
                     output_root = ''dist'', minifier = (\<lambda>html. html), regexp_engine = (\<lambda>key. None)\<rparr> [])
               (BatchDone Style [(''main.css'', ''dist/main.1f2e.css'')]))
     = Some \<lparr>pass_id = 1, manifest_of = 0\<rparr>
   \<and> [(''main.css'', ''main.1f2e.css'')]
     = manifest_reducer ''dist'' [] [(''main.css'', ''dist/main.1f2e.css'')]"
proof (intro conjI)
  let ?c = "\<lparr>watch_flag = False, dirty_flag = True, optimize_flag = True, output_root = ''dist'',
             minifier = (\<lambda>html. html), regexp_engine = (\<lambda>key. None)\<rparr>"
  let ?p = "[(''main.css'', ''dist/main.1f2e.css'')]"
  let ?es = "[BatchDone Style ?p, Template ''index.html'' ([dquote] @ ''bundle.js'' @ [dquote])]"
  let ?m = "[(''main.css'', ''main.1f2e.css'')]"
  show "in_flight (step ?c (run ?c []) (BatchDone Style ?p)) Script = Some 1"
    by code_simp
  have i: "in_flight (run ?c []) Style = Some 1" by code_simp
  have n: "Suc (passes (run ?c [])) = 1" by code_simp
  have a: "acc (init ?c) = 0" by code_simp
  from pass_restarts_on_every_batch [of ?c "[]"] i
  have "active (step ?c (run ?c []) (BatchDone Style ?p))
        = Some \<lparr>pass_id = Suc (passes (run ?c [])), manifest_of = acc (init ?c)\<rparr>"
    by blast
  then show "active (step ?c (run ?c []) (BatchDone Style ?p)) = Some \<lparr>pass_id = 1, manifest_of = 0\<rparr>"
    unfolding n a .
  have t: "trace (run ?c ?es)
           = [] @ Write 1 ''index.html'' ?m (Some (banner @ [dquote] @ ''bundle.js'' @ [dquote]))
                  # tl (trace (run ?c ?es))"
    by code_simp
  have f: "folded (tl (trace (run ?c ?es))) = ?p" by code_simp
  from pass_restarts_on_every_batch [of ?c ?es] t
  have "?m = manifest_reducer (output_root ?c) [] (folded (tl (trace (run ?c ?es))))"
    by blast
  then show "?m = manifest_reducer ''dist'' [] ?p"
    unfolding f by simp
qed



end
